theory Spec2Isabelle
  imports Main "HOL-Library.AList"
begin

section \<open>Values, errors and strings\<close>

text \<open>
  The handler works on the JSON-shaped values Python's \<^verbatim>\<open>json\<close> module produces: \<^verbatim>\<open>None\<close>,
  \<^verbatim>\<open>bool\<close>, \<^verbatim>\<open>int\<close> (unbounded), \<^verbatim>\<open>float\<close>, \<^verbatim>\<open>str\<close>, \<^verbatim>\<open>list\<close> and \<^verbatim>\<open>dict\<close> with string keys.
  A dict is an association list in insertion order; Python keeps its keys distinct.
  A float is carried as mantissa and binary exponent; no function below looks inside one.

  A Python \<^verbatim>\<open>str\<close> is a sequence of code points. It is modelled by \<open>string\<close>, the
  character with code \<open>n\<close> standing for the code point U+00nn: the model covers the strings
  whose code points lie in the Latin-1 range, and the string methods below are Python's on
  that range.
\<close>

datatype jv = JNull | JBool bool | JInt int | JFloat int int | JStr string
  | JList "jv list" | JDict "(string \<times> jv) list"

text \<open>Every \<^verbatim>\<open>raise\<close> of the source and of the built-ins it calls is a value.
  \<open>Exception\<close> carries the message of a \<^verbatim>\<open>raise Exception(...)\<close>,
  \<open>CalledProcessError\<close> the output of the command that failed.\<close>

datatype pyerr = KeyError | IndexError | TypeError | AttributeError | ValueError
  | CalledProcessError string | Exception string

text \<open>Truth value of an object, as \<^verbatim>\<open>if x:\<close> tests it.\<close>

fun truthy :: "jv \<Rightarrow> bool" where
  "truthy JNull = False"
| "truthy (JBool b) = b"
| "truthy (JInt i) = (i \<noteq> 0)"
| "truthy (JFloat m e) = (m \<noteq> 0)"
| "truthy (JStr s) = (s \<noteq> [])"
| "truthy (JList xs) = (xs \<noteq> [])"
| "truthy (JDict d) = (d \<noteq> [])"

definition is_ascii_digit :: "char \<Rightarrow> bool" where
  "is_ascii_digit c = (let n = (of_char c :: nat) in 48 \<le> n \<and> n \<le> 57)"

text \<open>\<^verbatim>\<open>str.isdigit\<close>: the string is not empty and every character has the Unicode
  property Numeric_Type Decimal or Digit. On the Latin-1 range these are the ten ASCII
  digits and the superscripts U+00B2, U+00B3 and U+00B9.\<close>

definition isdigit_char :: "char \<Rightarrow> bool" where
  "isdigit_char c = (is_ascii_digit c \<or> c = CHR 0xB2 \<or> c = CHR 0xB3 \<or> c = CHR 0xB9)"

definition isdigit :: "string \<Rightarrow> bool" where
  "isdigit s = (s \<noteq> [] \<and> list_all isdigit_char s)"

text \<open>\<^verbatim>\<open>str.lower\<close>: on the Latin-1 range the cased capitals are A-Z and U+00C0-U+00DE
  without the multiplication sign U+00D7; each maps to the code point 32 above.\<close>

definition lower_char :: "char \<Rightarrow> char" where
  "lower_char c =
     (let n = (of_char c :: nat) in
      if (65 \<le> n \<and> n \<le> 90) \<or> (192 \<le> n \<and> n \<le> 222 \<and> n \<noteq> 215)
      then char_of (n + 32) else c)"

definition lower :: "string \<Rightarrow> string" where
  "lower s = map lower_char s"

definition digit_val :: "char \<Rightarrow> int" where
  "digit_val c = int (of_char c) - 48"

definition int_of_digits :: "string \<Rightarrow> int" where
  "int_of_digits s = foldl (\<lambda>a c. 10 * a + digit_val c) 0 s"

text \<open>\<^verbatim>\<open>int(s)\<close> on a string that passed \<^verbatim>\<open>isdigit\<close> (its only call site below): the
  decimal value when every character is a decimal digit, and \<^verbatim>\<open>ValueError\<close> on a
  superscript digit, which \<^verbatim>\<open>int\<close> does not read.\<close>

definition py_int :: "string \<Rightarrow> pyerr + int" where
  "py_int s = (if s \<noteq> [] \<and> list_all is_ascii_digit s then Inr (int_of_digits s)
               else Inl ValueError)"

text \<open>\<^verbatim>\<open>s.split(sep)\<close> for a one-character separator: never the empty list, empty
  pieces kept.\<close>

fun split_on :: "char \<Rightarrow> string \<Rightarrow> string list" where
  "split_on sep [] = [[]]"
| "split_on sep (c # cs) =
     (if c = sep then [] # split_on sep cs
      else (case split_on sep cs of [] \<Rightarrow> [[c]] | p # ps \<Rightarrow> (c # p) # ps))"

text \<open>\<^verbatim>\<open>s.strip(ch)\<close> for a one-character set.\<close>

definition strip :: "char \<Rightarrow> string \<Rightarrow> string" where
  "strip ch s = rev (dropWhile (\<lambda>c. c = ch) (rev (dropWhile (\<lambda>c. c = ch) s)))"

text \<open>\<^verbatim>\<open>sep.join(parts)\<close>.\<close>

fun join :: "string \<Rightarrow> string list \<Rightarrow> string" where
  "join sep [] = []"
| "join sep [p] = p"
| "join sep (p # q # ps) = p @ sep @ join sep (q # ps)"

definition startswith :: "string \<Rightarrow> string \<Rightarrow> bool" where
  "startswith s pre = (take (length pre) s = pre)"

section \<open>PathAddress: \<^verbatim>\<open>to_path\<close>\<close>

text \<open>
  A path element is a dict key (a \<^verbatim>\<open>str\<close>) or a Python list of integers: \<^verbatim>\<open>traverse\<close>
  and \<^verbatim>\<open>to_path\<close> build the one-element list \<^verbatim>\<open>[idx]\<close> for a list index, and
  \<^verbatim>\<open>_iter_path\<close> ends with the empty list \<^verbatim>\<open>[]\<close>. A key never equals a list.
\<close>

datatype seg = Key string | Ix "int list"

text \<open>The regular expression \<^verbatim>\<open>\[[0-9]+\]\<close> at the head of a string: an opening
  bracket, the longest run of ASCII digits, which is not empty, and a closing bracket.
  The result is the digits and the text after the match.\<close>

definition idx_match :: "string \<Rightarrow> (string \<times> string) option" where
  "idx_match s =
     (case s of [] \<Rightarrow> None
      | c # cs \<Rightarrow>
          if c = CHR ''[''
          then (let ds = takeWhile is_ascii_digit cs; r = dropWhile is_ascii_digit cs in
                case r of [] \<Rightarrow> None
                | b # rest \<Rightarrow> if ds \<noteq> [] \<and> b = CHR '']'' then Some (ds, rest) else None)
          else None)"

text \<open>\<^verbatim>\<open>re.findall(r'\[[0-9]+\]', path)\<close>: the matches from left to right, without
  overlap, each with its brackets.\<close>

function re_findall :: "string \<Rightarrow> string list" where
  "re_findall [] = []"
| "re_findall (c # cs) =
     (case idx_match (c # cs) of
        Some (ds, rest) \<Rightarrow> (CHR ''['' # ds @ [CHR '']'']) # re_findall rest
      | None \<Rightarrow> re_findall cs)"
  by pat_completeness auto
termination
proof (relation "measure length")
  show "wf (measure length)" by simp
next
  fix c cs x ds rest
  assume "idx_match (c # cs) = Some x" and "(ds, rest) = x"
  then have "idx_match (c # cs) = Some (ds, rest)" by simp
  then have "rest = tl (dropWhile is_ascii_digit cs)"
    by (auto simp: idx_match_def Let_def split: if_splits list.splits)
  moreover have "length (tl (dropWhile is_ascii_digit cs)) \<le> length cs"
    using length_dropWhile_le [of is_ascii_digit cs] by simp
  ultimately show "(rest, c # cs) \<in> measure length" by simp
next
  fix c cs
  show "(cs, c # cs) \<in> measure length" by simp
qed

text \<open>\<^verbatim>\<open>re.split(r'\[[0-9]+\]', path)\<close>: the text between the matches, one piece more
  than there are matches.\<close>

function re_split :: "string \<Rightarrow> string list" where
  "re_split [] = [[]]"
| "re_split (c # cs) =
     (case idx_match (c # cs) of
        Some (ds, rest) \<Rightarrow> [] # re_split rest
      | None \<Rightarrow> (case re_split cs of [] \<Rightarrow> [[c]] | p # ps \<Rightarrow> (c # p) # ps))"
  by pat_completeness auto
termination
proof (relation "measure length")
  show "wf (measure length)" by simp
next
  fix c cs x ds rest
  assume "idx_match (c # cs) = Some x" and "(ds, rest) = x"
  then have "idx_match (c # cs) = Some (ds, rest)" by simp
  then have "rest = tl (dropWhile is_ascii_digit cs)"
    by (auto simp: idx_match_def Let_def split: if_splits list.splits)
  moreover have "length (tl (dropWhile is_ascii_digit cs)) \<le> length cs"
    using length_dropWhile_le [of is_ascii_digit cs] by simp
  ultimately show "(rest, c # cs) \<in> measure length" by simp
next
  fix c cs
  show "(cs, c # cs) \<in> measure length" by simp
qed

text \<open>The generator \<^verbatim>\<open>_iter_path\<close>, as the list of what it yields: for each piece of
  \<^verbatim>\<open>lists\<close> its dot-separated parts, then the index that followed the piece, or the
  empty list after the last piece.\<close>

definition iter_path :: "string \<Rightarrow> seg list" where
  "iter_path path =
     (let indexes = map (\<lambda>i. Ix [int_of_digits (butlast (tl i))]) (re_findall path);
          lists = re_split path
      in concat (map (\<lambda>parts.
           map Key (split_on CHR ''.'' (strip CHR ''.'' (lists ! parts)))
           @ [if parts < length indexes then indexes ! parts else Ix []])
         [0 ..< length lists]))"

text \<open>The target of \<^verbatim>\<open>traverse_modify\<close> is a string or a list that is returned as it is.\<close>

datatype target = PathStr string | PathList "seg list"

definition to_path :: "target \<Rightarrow> seg list" where
  "to_path path = (case path of PathList p \<Rightarrow> p | PathStr s \<Rightarrow> butlast (iter_path s))"

section \<open>TreeWalker: \<^verbatim>\<open>traverse\<close>, \<^verbatim>\<open>traverse_modify\<close>, \<^verbatim>\<open>traverse_modify_all\<close>\<close>

type_synonym callback = "seg list \<Rightarrow> jv \<Rightarrow> pyerr + jv"

text \<open>The last lines of \<^verbatim>\<open>traverse\<close>: without a callback the rebuilt value is returned,
  with one the callback decides, and may raise.\<close>

definition invoke :: "callback option \<Rightarrow> seg list \<Rightarrow> jv \<Rightarrow> pyerr + jv" where
  "invoke callback path v = (case callback of None \<Rightarrow> Inr v | Some f \<Rightarrow> f path v)"

text \<open>\<^verbatim>\<open>traverse\<close> with its two comprehensions: \<open>traverse_items\<close> is the dict
  comprehension over \<^verbatim>\<open>obj.items()\<close>, \<open>traverse_elems\<close> the list comprehension over
  \<^verbatim>\<open>range(len(obj))\<close>. Children are rebuilt first, from left to right; the first
  exception ends the walk.\<close>

primrec traverse :: "jv \<Rightarrow> seg list \<Rightarrow> callback option \<Rightarrow> pyerr + jv"
  and traverse_elems :: "jv list \<Rightarrow> nat \<Rightarrow> seg list \<Rightarrow> callback option \<Rightarrow> pyerr + jv list"
  and traverse_items ::
    "(string \<times> jv) list \<Rightarrow> seg list \<Rightarrow> callback option \<Rightarrow> pyerr + (string \<times> jv) list"
  and traverse_item ::
    "string \<times> jv \<Rightarrow> seg list \<Rightarrow> callback option \<Rightarrow> pyerr + (string \<times> jv)"
where
  "traverse JNull path cb = invoke cb path JNull"
| "traverse (JBool b) path cb = invoke cb path (JBool b)"
| "traverse (JInt i) path cb = invoke cb path (JInt i)"
| "traverse (JFloat m e) path cb = invoke cb path (JFloat m e)"
| "traverse (JStr s) path cb = invoke cb path (JStr s)"
| "traverse (JList xs) path cb =
     (case traverse_elems xs 0 path cb of
        Inl err \<Rightarrow> Inl err
      | Inr ys \<Rightarrow> invoke cb path (JList ys))"
| "traverse (JDict d) path cb =
     (case traverse_items d path cb of
        Inl err \<Rightarrow> Inl err
      | Inr d' \<Rightarrow> invoke cb path (JDict d'))"
| "traverse_elems [] idx path cb = Inr []"
| "traverse_elems (x # xs) idx path cb =
     (case traverse x (path @ [Ix [int idx]]) cb of
        Inl err \<Rightarrow> Inl err
      | Inr y \<Rightarrow>
          (case traverse_elems xs (Suc idx) path cb of
             Inl err \<Rightarrow> Inl err
           | Inr ys \<Rightarrow> Inr (y # ys)))"
| "traverse_items [] path cb = Inr []"
| "traverse_items (kv # kvs) path cb =
     (case traverse_item kv path cb of
        Inl err \<Rightarrow> Inl err
      | Inr kv' \<Rightarrow>
          (case traverse_items kvs path cb of
             Inl err \<Rightarrow> Inl err
           | Inr kvs' \<Rightarrow> Inr (kv' # kvs')))"
| "traverse_item (k, v) path cb =
     (case traverse v (path @ [Key k]) cb of
        Inl err \<Rightarrow> Inl err
      | Inr v' \<Rightarrow> Inr (k, v'))"

definition transformer :: "seg list \<Rightarrow> (jv \<Rightarrow> pyerr + jv) \<Rightarrow> callback" where
  "transformer target_path action path v = (if path = target_path then action v else Inr v)"

definition traverse_modify :: "jv \<Rightarrow> target \<Rightarrow> (jv \<Rightarrow> pyerr + jv) \<Rightarrow> pyerr + jv" where
  "traverse_modify obj target_path action =
     traverse obj [] (Some (transformer (to_path target_path) action))"

definition traverse_modify_all :: "jv \<Rightarrow> (jv \<Rightarrow> pyerr + jv) \<Rightarrow> pyerr + jv" where
  "traverse_modify_all obj action = traverse obj [] (Some (\<lambda>path v. action v))"

section \<open>TypeCoercer: \<^verbatim>\<open>set_type\<close>, \<^verbatim>\<open>fix_types\<close>\<close>

fun set_type :: "jv \<Rightarrow> pyerr + jv" where
  "set_type (JStr s) =
     (if lower s = ''false'' then Inr (JBool False)
      else if lower s = ''true'' then Inr (JBool True)
      else if isdigit s then (case py_int s of Inl err \<Rightarrow> Inl err | Inr i \<Rightarrow> Inr (JInt i))
      else Inr (JStr s))"
| "set_type v = Inr v"

definition fix_types :: "jv \<Rightarrow> pyerr + jv" where
  "fix_types manifest = traverse_modify_all manifest set_type"

text \<open>Sequencing of two calls that may raise: \<^verbatim>\<open>g(f(x))\<close>.\<close>

definition and_then :: "pyerr + 'a \<Rightarrow> ('a \<Rightarrow> pyerr + 'b) \<Rightarrow> pyerr + 'b" where
  "and_then r f = (case r of Inl err \<Rightarrow> Inl err | Inr x \<Rightarrow> f x)"

section \<open>The request, its context and the external collaborators\<close>

text \<open>
  The event of one invocation, with the keys the handler reads. \<^verbatim>\<open>Manifest\<close>,
  \<^verbatim>\<open>KubeConfigPath\<close> and \<^verbatim>\<open>KubeConfigKmsContext\<close> are the entries of
  \<^verbatim>\<open>event['ResourceProperties']\<close>. Only \<^verbatim>\<open>PhysicalResourceId\<close> is tested for presence by
  the source, so it alone is optional here.
\<close>

record event =
  RequestType :: string
  Manifest :: jv
  KubeConfigPath :: string
  KubeConfigKmsContext :: jv
  PhysicalResourceId :: "string option"
  StackId :: string
  ResponseURL :: string
  RequestId :: string
  LogicalResourceId :: string

record lambda_context =
  log_stream_name :: string
  get_remaining_time_in_millis :: int

text \<open>
  What lies outside the program, as it answers during one invocation: the process
  environment, the object store (\<open>Inl\<close> is the text of the exception it raised), the
  decryption service, the subprocess call and \<^verbatim>\<open>json.loads\<close>. Writing the two local
  files is taken to succeed.
\<close>

record world =
  environ_PATH :: "string option"
  s3_get_object :: "string \<Rightarrow> string \<Rightarrow> string + string"
  kms_decrypt :: "string \<Rightarrow> jv \<Rightarrow> pyerr + string"
  check_output :: "string \<Rightarrow> pyerr + string"
  json_loads :: "string \<Rightarrow> pyerr + jv"

datatype effect =
    WriteKubeconfig string
  | WriteManifest jv string
  | RunCommand string

definition SUCCESS :: string where
  "SUCCESS = ''SUCCESS''"

definition FAILED :: string where
  "FAILED = ''FAILED''"

section \<open>ResponsePublisher: \<^verbatim>\<open>send\<close> and \<^verbatim>\<open>timeout\<close>\<close>

text \<open>The \<^verbatim>\<open>Reason\<close> of a report: the pointer to the log stream, or \<^verbatim>\<open>str(reason)\<close>, kept
  as the exception it is the text of.\<close>

datatype reason = SeeLogStream string | ErrorText pyerr

record response_body =
  respStatus :: string
  respReason :: reason
  respPhysicalResourceId :: jv
  respStackId :: string
  respRequestId :: string
  respLogicalResourceId :: string
  respData :: "(string \<times> jv) list option"

text \<open>\<^verbatim>\<open>not reason\<close> holds for \<^verbatim>\<open>None\<close> and for an empty text; of the exceptions modelled
  only \<^verbatim>\<open>Exception('')\<close> has an empty text. The result is the body put to the response
  URL; a report counts as sent when \<^verbatim>\<open>send\<close> is called, whether the PUT goes through or
  raises.\<close>

definition send ::
  "event \<Rightarrow> lambda_context \<Rightarrow> string \<Rightarrow> (string \<times> jv) list \<Rightarrow> jv option \<Rightarrow> pyerr option
   \<Rightarrow> response_body" where
  "send ev ctx response_status response_data physical_resource_id reason =
     \<lparr> respStatus = response_status,
       respReason =
         (case reason of
            None \<Rightarrow> SeeLogStream (log_stream_name ctx)
          | Some err \<Rightarrow>
              if err = Exception [] then SeeLogStream (log_stream_name ctx) else ErrorText err),
       respPhysicalResourceId =
         (case physical_resource_id of
            Some pid \<Rightarrow>
              if truthy pid then pid
              else (case PhysicalResourceId ev of
                      Some p \<Rightarrow> JStr p
                    | None \<Rightarrow> JStr (log_stream_name ctx))
          | None \<Rightarrow>
              (case PhysicalResourceId ev of
                 Some p \<Rightarrow> JStr p
               | None \<Rightarrow> JStr (log_stream_name ctx))),
       respStackId = StackId ev,
       respRequestId = RequestId ev,
       respLogicalResourceId = LogicalResourceId ev,
       respData = (if response_data \<noteq> [] then Some response_data else None) \<rparr>"

definition timeout :: "event \<Rightarrow> lambda_context \<Rightarrow> response_body" where
  "timeout ev ctx = send ev ctx FAILED [] None None"

section \<open>External calls: \<^verbatim>\<open>run_command\<close>, \<^verbatim>\<open>create_kubeconfig\<close>, \<^verbatim>\<open>get_config_details\<close>\<close>

definition run_command :: "world \<Rightarrow> string \<Rightarrow> pyerr + string" where
  "run_command w command =
     (case check_output w command of
        Inl (CalledProcessError out) \<Rightarrow> Inl (Exception out)
      | Inl err \<Rightarrow> Inl err
      | Inr out \<Rightarrow> Inr out)"

text \<open>The result is the configuration text written to \<^verbatim>\<open>/tmp/.kube/config\<close>.\<close>

definition create_kubeconfig :: "world \<Rightarrow> string \<Rightarrow> string \<Rightarrow> jv \<Rightarrow> pyerr + string" where
  "create_kubeconfig w bucket key kms_context =
     (case s3_get_object w bucket key of
        Inl msg \<Rightarrow> Inl (Exception (''Failed to fetch KubeConfig from S3: '' @ msg))
      | Inr enc_config \<Rightarrow> kms_decrypt w enc_config kms_context)"

definition get_config_details :: "event \<Rightarrow> pyerr + (string \<times> string \<times> jv)" where
  "get_config_details ev =
     (let s3_uri_parts = split_on CHR ''/'' (KubeConfigPath ev) in
      if length s3_uri_parts < 4 \<or> take 2 s3_uri_parts \<noteq> [''s3:'', []]
      then Inl (Exception
        ''Invalid KubeConfigPath, must be in the format s3://bucket-name/path/to/config'')
      else Inr (s3_uri_parts ! 2, join ''/'' (drop 3 s3_uri_parts),
                JDict [(''QSContext'', KubeConfigKmsContext ev)]))"

section \<open>ManifestNamer: \<^verbatim>\<open>generate_name\<close>\<close>

text \<open>
  The stack name is computed first, whatever the manifest holds: a stack id with no
  \<^verbatim>\<open>/\<close> raises \<^verbatim>\<open>IndexError\<close>. \<^verbatim>\<open>.keys()\<close> on a manifest or a metadata entry that is
  not a dict raises \<^verbatim>\<open>AttributeError\<close>. The physical id is \<^verbatim>\<open>None\<close> or the string of the
  event, and \<^verbatim>\<open>if physical_resource_id:\<close> takes an empty string as absent. The
  assignments update the dicts in place, so an entry keeps its position and a new key
  goes last.
\<close>

definition set_name :: "string \<Rightarrow> jv \<Rightarrow> (string \<times> jv) list \<Rightarrow> (string \<times> jv) list \<Rightarrow> jv" where
  "set_name field v md d =
     JDict (AList.update ''metadata'' (JDict (AList.update field v md)) d)"

definition generate_name :: "event \<Rightarrow> string option \<Rightarrow> pyerr + jv" where
  "generate_name ev physical_resource_id =
     (let manifest = Manifest ev; parts = split_on CHR ''/'' (StackId ev) in
      if length parts < 2 then Inl IndexError
      else
        let stack_name = parts ! 1 in
        case manifest of
          JDict d \<Rightarrow>
            (case map_of d ''metadata'' of
               None \<Rightarrow> Inr manifest
             | Some (JDict md) \<Rightarrow>
                 if map_of md ''name'' = None \<and> map_of md ''generateName'' = None
                 then
                   (case physical_resource_id of
                      Some p \<Rightarrow>
                        if p \<noteq> []
                        then Inr (set_name ''name'' (JStr (last (split_on CHR ''/'' p))) md d)
                        else Inr (set_name ''generateName''
                                    (JStr (''cfn-'' @ lower stack_name @ ''-'')) md d)
                    | None \<Rightarrow>
                        Inr (set_name ''generateName''
                               (JStr (''cfn-'' @ lower stack_name @ ''-'')) md d))
                 else Inr manifest
             | Some other \<Rightarrow> Inl AttributeError)
        | other \<Rightarrow> Inl AttributeError)"

section \<open>Output extraction: \<^verbatim>\<open>build_output\<close>\<close>

definition output_keys :: "string list" where
  "output_keys = [''uid'', ''selfLink'', ''resourceVersion'', ''namespace'', ''name'']"

text \<open>One turn of the loop: \<^verbatim>\<open>if key in metadata.keys(): outp[key] = metadata[key]\<close>.\<close>

definition copy_key ::
  "(string \<times> jv) list \<Rightarrow> (string \<times> jv) list \<Rightarrow> string \<Rightarrow> (string \<times> jv) list" where
  "copy_key md outp key =
     (case map_of md key of None \<Rightarrow> outp | Some v \<Rightarrow> AList.update key v outp)"

text \<open>\<^verbatim>\<open>kube_response["metadata"]\<close> raises \<^verbatim>\<open>KeyError\<close> on a dict without the key and
  \<^verbatim>\<open>TypeError\<close> on a value that is not a dict; \<^verbatim>\<open>.keys()\<close> raises \<^verbatim>\<open>AttributeError\<close> on
  a metadata entry that is not a dict.\<close>

definition build_output :: "jv \<Rightarrow> pyerr + (string \<times> jv) list" where
  "build_output kube_response =
     (case kube_response of
        JDict d \<Rightarrow>
          (case map_of d ''metadata'' of
             None \<Rightarrow> Inl KeyError
           | Some (JDict md) \<Rightarrow> Inr (foldl (copy_key md) [] output_keys)
           | Some other \<Rightarrow> Inl AttributeError)
      | other \<Rightarrow> Inl TypeError)"

section \<open>LifecycleController: \<^verbatim>\<open>lambda_handler\<close>\<close>

text \<open>
  The pattern of the Delete branch,
  \<^verbatim>\<open>^[0-9]{4}\/[0-9]{2}\/[0-9]{2}\/\[\$LATEST\][a-f0-9]{32}$\<close>, under \<^verbatim>\<open>re.search\<close>.
  \<open>fallback_shape\<close> is the text between the anchors: 52 characters. Python's \<^verbatim>\<open>$\<close>
  matches at the end of the string and also before a newline that ends it.
\<close>

definition is_hex_lower :: "char \<Rightarrow> bool" where
  "is_hex_lower c = (let n = (of_char c :: nat) in (97 \<le> n \<and> n \<le> 102) \<or> (48 \<le> n \<and> n \<le> 57))"

definition fallback_shape :: "string \<Rightarrow> bool" where
  "fallback_shape p =
     (length p = 52
      \<and> list_all is_ascii_digit (take 4 p)
      \<and> take 1 (drop 4 p) = ''/''
      \<and> list_all is_ascii_digit (take 2 (drop 5 p))
      \<and> take 1 (drop 7 p) = ''/''
      \<and> list_all is_ascii_digit (take 2 (drop 8 p))
      \<and> take 10 (drop 10 p) = ''/[$LATEST]''
      \<and> list_all is_hex_lower (drop 20 p))"

definition fallback_search :: "string \<Rightarrow> bool" where
  "fallback_search p =
     (fallback_shape p \<or> (p \<noteq> [] \<and> last p = CHR 0x0A \<and> fallback_shape (butlast p)))"

definition manifest_file :: string where
  "manifest_file = ''/tmp/manifest.json''"

text \<open>The local variables of the handler that its \<^verbatim>\<open>try\<close> block assigns, and the effects
  performed so far. An exception leaves them as they were when it was raised.\<close>

record vars =
  response_data :: "(string \<times> jv) list"
  physical_resource_id :: "jv option"
  effects :: "effect list"

type_synonym step = "vars \<Rightarrow> pyerr option \<times> vars"

definition seq :: "step \<Rightarrow> step \<Rightarrow> step" where
  "seq f g s = (case f s of (None, s') \<Rightarrow> g s' | (Some err, s') \<Rightarrow> (Some err, s'))"

text \<open>Lines 207 to 217: the search path, the kubeconfig, the physical id of the event, the
  named and coerced manifest written to its file. \<^verbatim>\<open>generate_name\<close> receives the local
  physical id, which at that point is \<^verbatim>\<open>None\<close> or the string of the event.\<close>

definition prepare :: "world \<Rightarrow> event \<Rightarrow> step" where
  "prepare w ev s =
     (case environ_PATH w of
        None \<Rightarrow> (Some TypeError, s)
      | Some path \<Rightarrow>
          if \<not> startswith (KubeConfigPath ev) ''s3://''
          then (Some (Exception
            ''KubeConfigPath must be a valid s3 URI (eg.: s3://my-bucket/my-key.txt''), s)
          else
            (case get_config_details ev of
               Inl err \<Rightarrow> (Some err, s)
             | Inr (bucket, key, kms_context) \<Rightarrow>
                 (case create_kubeconfig w bucket key kms_context of
                    Inl err \<Rightarrow> (Some err, s)
                  | Inr kubeconf \<Rightarrow>
                      let s1 = s\<lparr>effects := effects s @ [WriteKubeconfig kubeconf]\<rparr>;
                          s2 = (case PhysicalResourceId ev of
                                  None \<Rightarrow> s1
                                | Some p \<Rightarrow> s1\<lparr>physical_resource_id := Some (JStr p)\<rparr>)
                      in
                        (case generate_name ev (PhysicalResourceId ev) of
                           Inl err \<Rightarrow> (Some err, s2)
                         | Inr named \<Rightarrow>
                             (case fix_types named of
                                Inl err \<Rightarrow> (Some err, s2)
                              | Inr manifest \<Rightarrow>
                                  (None, s2\<lparr>effects := effects s2
                                      @ [WriteManifest manifest manifest_file]\<rparr>))))))"

definition create_command :: string where
  "create_command = ''kubectl create --save-config -o json -f '' @ manifest_file"

definition apply_command :: string where
  "apply_command = ''kubectl apply -f '' @ manifest_file"

definition delete_command :: string where
  "delete_command = ''kubectl delete -f '' @ manifest_file"

text \<open>\<^verbatim>\<open>build_output(json.loads(run_command(command)))\<close>; the command counts as run
  whether it fails or not.\<close>

definition run_and_extract :: "world \<Rightarrow> string \<Rightarrow> vars \<Rightarrow> (pyerr + (string \<times> jv) list) \<times> vars"
  where
  "run_and_extract w command s =
     (let s1 = s\<lparr>effects := effects s @ [RunCommand command]\<rparr> in
      (and_then (and_then (run_command w command) (json_loads w)) build_output, s1))"

definition create_branch :: "world \<Rightarrow> event \<Rightarrow> step" where
  "create_branch w ev s =
     (if RequestType ev = ''Create''
      then (case run_and_extract w create_command s of
              (Inl err, s1) \<Rightarrow> (Some err, s1)
            | (Inr outp, s1) \<Rightarrow>
                let s2 = s1\<lparr>response_data := outp\<rparr> in
                (case map_of outp ''selfLink'' of
                   None \<Rightarrow> (Some KeyError, s2)
                 | Some link \<Rightarrow> (None, s2\<lparr>physical_resource_id := Some link\<rparr>)))
      else (None, s))"

definition update_branch :: "world \<Rightarrow> event \<Rightarrow> step" where
  "update_branch w ev s =
     (if RequestType ev = ''Update''
      then (case run_and_extract w apply_command s of
              (Inl err, s1) \<Rightarrow> (Some err, s1)
            | (Inr outp, s1) \<Rightarrow> (None, s1\<lparr>response_data := outp\<rparr>))
      else (None, s))"

text \<open>\<^verbatim>\<open>re.search\<close> raises \<^verbatim>\<open>TypeError\<close> on a physical id that is not a string, as on
  \<^verbatim>\<open>None\<close>.\<close>

definition delete_branch :: "world \<Rightarrow> event \<Rightarrow> step" where
  "delete_branch w ev s =
     (if RequestType ev = ''Delete''
      then (case physical_resource_id s of
              Some (JStr p) \<Rightarrow>
                if \<not> fallback_search p
                then (let s1 = s\<lparr>effects := effects s @ [RunCommand delete_command]\<rparr> in
                      case run_command w delete_command of
                        Inl err \<Rightarrow> (Some err, s1)
                      | Inr out \<Rightarrow> (None, s1))
                else (None, s)
            | other \<Rightarrow> (Some TypeError, s))
      else (None, s))"

definition try_block :: "world \<Rightarrow> event \<Rightarrow> step" where
  "try_block w ev =
     seq (prepare w ev) (seq (create_branch w ev) (seq (update_branch w ev) (delete_branch w ev)))"

definition initial_vars :: vars where
  "initial_vars = \<lparr>response_data = [], physical_resource_id = None, effects = []\<rparr>"

text \<open>The main path of \<^verbatim>\<open>lambda_handler\<close>, from the \<^verbatim>\<open>try\<close> to the \<^verbatim>\<open>send\<close> of the
  \<^verbatim>\<open>finally\<close> clause: the effects performed and the report sent.\<close>

definition lambda_handler :: "world \<Rightarrow> event \<Rightarrow> lambda_context \<Rightarrow> effect list \<times> response_body"
  where
  "lambda_handler w ev ctx =
     (case try_block w ev initial_vars of
        (None, s) \<Rightarrow>
          (effects s, send ev ctx SUCCESS (response_data s) (physical_resource_id s) None)
      | (Some err, s) \<Rightarrow>
          (effects s, send ev ctx FAILED (response_data s) (physical_resource_id s) (Some err)))"

section \<open>The watchdog\<close>

text \<open>
  \<^verbatim>\<open>threading.Timer(..., timeout, args=[event, context])\<close> is started before the main
  path. Its thread runs \<^verbatim>\<open>timeout\<close> once the interval has passed unless \<^verbatim>\<open>cancel\<close> came
  first; it does not stop the main thread. The main path ends with \<^verbatim>\<open>timer.cancel()\<close>,
  which has no effect on a timer that has fired, and its own \<^verbatim>\<open>send\<close>. One invocation is
  the sequence in which these two things occur.
\<close>

datatype timer = Armed | Fired | Cancelled

record run =
  timer_state :: timer
  main_done :: bool
  sent :: "response_body list"

datatype occurrence = WatchdogFires | MainPathCompletes

definition occur :: "world \<Rightarrow> event \<Rightarrow> lambda_context \<Rightarrow> run \<Rightarrow> occurrence \<Rightarrow> run" where
  "occur w ev ctx r occ =
     (case occ of
        WatchdogFires \<Rightarrow>
          if timer_state r = Armed
          then r\<lparr>timer_state := Fired, sent := sent r @ [timeout ev ctx]\<rparr>
          else r
      | MainPathCompletes \<Rightarrow>
          if main_done r then r
          else r\<lparr>timer_state := (if timer_state r = Armed then Cancelled else timer_state r),
                 main_done := True,
                 sent := sent r @ [snd (lambda_handler w ev ctx)]\<rparr>)"

definition started :: run where
  "started = \<lparr>timer_state = Armed, main_done = False, sent = []\<rparr>"

definition invocation :: "world \<Rightarrow> event \<Rightarrow> lambda_context \<Rightarrow> occurrence list \<Rightarrow> run" where
  "invocation w ev ctx occs = foldl (occur w ev ctx) started occs"

section \<open>Notions used in the statements\<close>

text \<open>A scalar is a value that is neither a list nor a dict.\<close>

fun is_scalar :: "jv \<Rightarrow> bool" where
  "is_scalar (JList xs) = False"
| "is_scalar (JDict d) = False"
| "is_scalar v = True"

text \<open>The number of dot-delimited non-empty components of an address is the length of
  \<open>dot_components\<close>.\<close>

definition dot_components :: "string \<Rightarrow> string list" where
  "dot_components s = filter (\<lambda>p. p \<noteq> []) (split_on CHR ''.'' s)"

text \<open>An address without any index: key segments that are not empty and hold no bracket,
  separated by single dots.\<close>

definition key_segment :: "string \<Rightarrow> bool" where
  "key_segment k = (k \<noteq> [] \<and> CHR ''['' \<notin> set k \<and> CHR '']'' \<notin> set k)"

definition plain_address :: "string \<Rightarrow> bool" where
  "plain_address s = list_all key_segment (split_on CHR ''.'' s)"

text \<open>A bracketed index with the digits \<open>ds\<close>; an address ends in one when it is
  \<open>t @ index_token ds\<close> for digits \<open>ds\<close>, of which there is at least one.\<close>

definition index_token :: "string \<Rightarrow> string" where
  "index_token ds = CHR ''['' # ds @ [CHR '']'']"

text \<open>
  A valid address by its structure: key segments, each with the digits of the bracketed
  indices that follow it. \<open>render\<close> writes the address as a string, the segments joined
  by dots.
\<close>

type_synonym segment = "string \<times> string list"

definition index_digits :: "string \<Rightarrow> bool" where
  "index_digits ds = (ds \<noteq> [] \<and> list_all is_ascii_digit ds)"

definition valid_segment :: "segment \<Rightarrow> bool" where
  "valid_segment sg = (key_segment (fst sg) \<and> CHR ''.'' \<notin> set (fst sg)
     \<and> list_all index_digits (snd sg))"

definition render_segment :: "segment \<Rightarrow> string" where
  "render_segment sg = fst sg @ concat (map index_token (snd sg))"

definition render :: "segment list \<Rightarrow> string" where
  "render sgs = join ''.'' (map render_segment sgs)"

text \<open>The two steps of \<^verbatim>\<open>_iter_path\<close>: the keys of one piece, and the pieces taken in turn
  with the index that follows each.\<close>

definition parts :: "string \<Rightarrow> seg list" where
  "parts u = map Key (split_on CHR ''.'' (strip CHR ''.'' u))"

definition weave :: "string list \<Rightarrow> seg list \<Rightarrow> seg list" where
  "weave pieces indexes =
     concat (map (\<lambda>n. parts (pieces ! n) @ [if n < length indexes then indexes ! n else Ix []])
       [0 ..< length pieces])"

text \<open>What the parser yields for a segment: its key and its first index, and for every
  further index the empty key and the index. An address that ends in an index gets the
  empty key at its end.\<close>

definition segment_path :: "segment \<Rightarrow> seg list" where
  "segment_path sg =
     Key (fst sg) #
       (case snd sg of [] \<Rightarrow> []
        | i # js \<Rightarrow> Ix [int_of_digits i] # concat (map (\<lambda>j. [Key [], Ix [int_of_digits j]]) js))"

definition address_path :: "segment list \<Rightarrow> seg list" where
  "address_path sgs =
     concat (map segment_path sgs) @ (if snd (last sgs) = [] then [] else [Key []])"

text \<open>A segment with one index at most.\<close>

definition single_index :: "segment \<Rightarrow> bool" where
  "single_index sg = (length (snd sg) \<le> 1)"

text \<open>Keys, each with a dot after it, and a key of a valid segment.\<close>

definition dotted :: "string list \<Rightarrow> string" where
  "dotted ks = concat (map (\<lambda>k. k @ ''.'') ks)"

definition plain_key :: "string \<Rightarrow> bool" where
  "plain_key k = (key_segment k \<and> CHR ''.'' \<notin> set k)"

text \<open>The keys of all the dicts of a value.\<close>

primrec dict_keys :: "jv \<Rightarrow> string list"
  and dict_keys_elems :: "jv list \<Rightarrow> string list"
  and dict_keys_items :: "(string \<times> jv) list \<Rightarrow> string list"
  and dict_keys_item :: "string \<times> jv \<Rightarrow> string list"
where
  "dict_keys JNull = []"
| "dict_keys (JBool b) = []"
| "dict_keys (JInt i) = []"
| "dict_keys (JFloat m e) = []"
| "dict_keys (JStr s) = []"
| "dict_keys (JList xs) = dict_keys_elems xs"
| "dict_keys (JDict d) = dict_keys_items d"
| "dict_keys_elems [] = []"
| "dict_keys_elems (x # xs) = dict_keys x @ dict_keys_elems xs"
| "dict_keys_items [] = []"
| "dict_keys_items (kv # kvs) = dict_keys_item kv @ dict_keys_items kvs"
| "dict_keys_item (k, v) = k # dict_keys v"

text \<open>The string leaves of a value, and the strings \<^verbatim>\<open>int\<close> reads whenever \<^verbatim>\<open>isdigit\<close>
  holds of them.\<close>

primrec strings_of :: "jv \<Rightarrow> string list"
  and strings_of_elems :: "jv list \<Rightarrow> string list"
  and strings_of_items :: "(string \<times> jv) list \<Rightarrow> string list"
  and strings_of_item :: "string \<times> jv \<Rightarrow> string list"
where
  "strings_of JNull = []"
| "strings_of (JBool b) = []"
| "strings_of (JInt i) = []"
| "strings_of (JFloat m e) = []"
| "strings_of (JStr s) = [s]"
| "strings_of (JList xs) = strings_of_elems xs"
| "strings_of (JDict d) = strings_of_items d"
| "strings_of_elems [] = []"
| "strings_of_elems (x # xs) = strings_of x @ strings_of_elems xs"
| "strings_of_items [] = []"
| "strings_of_items (kv # kvs) = strings_of_item kv @ strings_of_items kvs"
| "strings_of_item (k, v) = strings_of v"

definition int_readable :: "string \<Rightarrow> bool" where
  "int_readable s = (if isdigit s then list_all is_ascii_digit s else True)"

text \<open>A path that is the root or does not end in the empty key.\<close>

definition off_target :: "seg list \<Rightarrow> bool" where
  "off_target path = (path = [] \<or> last path \<noteq> Key [])"

text \<open>What holds of the reports after any sequence of occurrences: one for a timer that
  fired and one for a main path that completed, and a timer is cancelled by the main path
  only.\<close>

definition reports_inv :: "run \<Rightarrow> bool" where
  "reports_inv r =
     (length (sent r) = (if timer_state r = Fired then 1 else 0) + (if main_done r then 1 else 0)
      \<and> (timer_state r = Cancelled) \<le> main_done r)"

section \<open>Example inputs\<close>

text \<open>An action that replaces the node by \<^verbatim>\<open>None\<close>.\<close>

definition to_null :: "jv \<Rightarrow> pyerr + jv" where
  "to_null v = Inr JNull"

text \<open>A dict with an empty key inside the first element of the list under \<^verbatim>\<open>a\<close>.\<close>

definition empty_key_tree :: jv where
  "empty_key_tree = JDict [(''a'', JList [JDict [([], JInt 1)]])]"

definition nested_tree :: jv where
  "nested_tree = JDict [(''a'', JDict [(''b'', JList [JInt 1, JStr ''x''])])]"

text \<open>A manifest whose scalars arrive as strings.\<close>

definition stringly_manifest :: jv where
  "stringly_manifest =
     JDict [(''spec'', JDict [(''replicas'', JStr ''3''), (''paused'', JStr ''False''),
        (''ports'', JList [JStr ''080'', JStr ''8.5'', JInt 9])])]"

text \<open>A world in which every collaborator answers, the tool with a created pod.\<close>

definition pod :: jv where
  "pod = JDict [(''kind'', JStr ''Pod''),
                (''metadata'', JDict [(''name'', JStr ''x''),
                   (''selfLink'', JStr ''/api/v1/namespaces/default/pods/x''),
                   (''uid'', JStr ''u1''),
                   (''labels'', JDict [])])]"

definition calm_world :: world where
  "calm_world =
     \<lparr> environ_PATH = Some ''/usr/bin'',
       s3_get_object = (\<lambda>bucket key. Inr ''ciphertext''),
       kms_decrypt = (\<lambda>blob kms_context. Inr ''kubeconfig''),
       check_output = (\<lambda>command. Inr ''pod''),
       json_loads = (\<lambda>text. Inr pod) \<rparr>"

definition some_context :: lambda_context where
  "some_context =
     \<lparr> log_stream_name = ''2019/01/02/[$LATEST]0123456789abcdef0123456789abcdef'',
       get_remaining_time_in_millis = 3000 \<rparr>"

definition fallback_id :: string where
  "fallback_id = ''2019/01/02/[$LATEST]0123456789abcdef0123456789abcdef''"

definition stack_arn :: string where
  "stack_arn = ''arn:aws:cloudformation:us-east-1:123456789012:stack/MyStack/uuid''"

text \<open>A Delete for a resource whose Create failed: the physical id is the fallback id.\<close>

definition rollback_delete :: event where
  "rollback_delete =
     \<lparr> RequestType = ''Delete'',
       Manifest = JDict [(''metadata'', JDict [(''name'', JStr ''x'')])],
       KubeConfigPath = ''s3://bucket/kube/config.enc'',
       KubeConfigKmsContext = JStr ''ctx'',
       PhysicalResourceId = Some fallback_id,
       StackId = stack_arn,
       ResponseURL = ''https://response.example'',
       RequestId = ''r1'',
       LogicalResourceId = ''KubeManifest'' \<rparr>"

text \<open>The same Delete when the Create had failed on its kubeconfig path, which the
  Delete carries again.\<close>

definition rollback_delete_bad_path :: event where
  "rollback_delete_bad_path = rollback_delete\<lparr>KubeConfigPath := ''http://bucket/config''\<rparr>"

text \<open>A Delete of the pod a Create made: the physical id is its self link.\<close>

definition delete_of_pod :: event where
  "delete_of_pod =
     rollback_delete\<lparr>PhysicalResourceId := Some ''/api/v1/namespaces/default/pods/x''\<rparr>"

definition update_of_pod :: event where
  "update_of_pod =
     rollback_delete\<lparr>RequestType := ''Update'',
       PhysicalResourceId := Some ''/api/v1/namespaces/default/pods/x''\<rparr>"

definition unnamed_create :: event where
  "unnamed_create =
     rollback_delete\<lparr>RequestType := ''Create'',
       Manifest := JDict [(''metadata'', JDict [])],
       PhysicalResourceId := None\<rparr>"

text \<open>A Create that is tried again and carries the fallback id of the first attempt.\<close>

definition retried_create :: event where
  "retried_create = rollback_delete\<lparr>RequestType := ''Create''\<rparr>"

text \<open>A manifest with an annotation whose value is the superscript two, U+00B2.\<close>

definition superscript_manifest :: jv where
  "superscript_manifest =
     JDict [(''metadata'',
       JDict [(''name'', JStr ''x''),
              (''annotations'', JDict [(''area-unit'', JStr [CHR 0xB2])])])]"

section \<open>Facts about strings and addresses\<close>

lemma split_on_not_Nil: "split_on sep s \<noteq> []"
  by (induction s) (auto split: list.splits)

lemma split_on_single: "split_on sep s = [p] \<Longrightarrow> p = s"
proof (induction s arbitrary: p)
  case Nil
  then show ?case by simp
next
  case (Cons c cs)
  then show ?case
    using split_on_not_Nil [of sep cs] by (auto split: if_splits list.splits)
qed

lemma split_on_absent: "sep \<notin> set s \<Longrightarrow> split_on sep s = [s]"
  by (induction s) auto

lemma split_on_set:
  "x \<in> set s \<Longrightarrow> x \<noteq> sep \<Longrightarrow> \<exists>p \<in> set (split_on sep s). x \<in> set p"
proof (induction s)
  case Nil
  then show ?case by simp
next
  case (Cons c cs)
  obtain p ps where ps: "split_on sep cs = p # ps"
    using split_on_not_Nil [of sep cs] by (cases "split_on sep cs") auto
  show ?case
  proof (cases "x \<in> set cs")
    case True
    then obtain q where "q \<in> set (split_on sep cs)" "x \<in> set q"
      using Cons by auto
    then show ?thesis by (auto simp: ps)
  next
    case False
    with Cons.prems have "x = c" by simp
    with Cons.prems show ?thesis by (auto simp: ps)
  qed
qed

lemma split_on_last_empty: "last (split_on sep s) = [] \<longleftrightarrow> s = [] \<or> last s = sep"
proof (induction s)
  case Nil
  then show ?case by simp
next
  case (Cons c cs)
  obtain p ps where ps: "split_on sep cs = p # ps"
    using split_on_not_Nil [of sep cs] by (cases "split_on sep cs") auto
  show ?case
    using Cons ps split_on_single [of sep cs] by (cases ps) (auto split: if_splits)
qed

lemma strip_id:
  assumes "s \<noteq> []" and "hd s \<noteq> ch" and "last s \<noteq> ch"
  shows "strip ch s = s"
proof -
  from assms(1,2) have lead: "dropWhile (\<lambda>c. c = ch) s = s" by (cases s) auto
  from assms(1,3) have "hd (rev s) \<noteq> ch" by (simp add: hd_rev)
  with assms(1) have trail: "dropWhile (\<lambda>c. c = ch) (rev s) = rev s" by (cases "rev s") auto
  show ?thesis by (simp add: strip_def lead trail)
qed

lemma idx_match_no_bracket: "c \<noteq> CHR ''['' \<Longrightarrow> idx_match (c # cs) = None"
  by (simp add: idx_match_def)

lemma re_findall_plain: "CHR ''['' \<notin> set s \<Longrightarrow> re_findall s = []"
  by (induction s) (auto simp: idx_match_no_bracket)

lemma re_split_plain: "CHR ''['' \<notin> set s \<Longrightarrow> re_split s = [s]"
  by (induction s) (auto simp: idx_match_no_bracket)

lemma re_split_not_Nil: "re_split s \<noteq> []"
  by (induction s rule: re_split.induct) (auto split: option.splits list.splits)

lemma length_re_split: "length (re_split s) = Suc (length (re_findall s))"
  by (induction s rule: re_split.induct) (auto split: option.splits list.splits)

lemma iter_path_empty: "iter_path [] = [Key [], Ix []]"
  by (simp add: iter_path_def strip_def)

text \<open>Whatever the address, the generator ends with the parts of the last piece and the
  empty list.\<close>

lemma iter_path_tail:
  "\<exists>front. iter_path s =
     front @ map Key (split_on CHR ''.'' (strip CHR ''.'' (last (re_split s)))) @ [Ix []]"
proof -
  define n where "n = length (re_findall s)"
  have len: "length (re_split s) = Suc n"
    by (simp add: n_def length_re_split)
  then have "last (re_split s) = re_split s ! n"
    using re_split_not_Nil [of s] by (simp add: last_conv_nth)
  then show ?thesis
    by (simp add: iter_path_def Let_def len n_def [symmetric])
qed

lemma plain_address_shape:
  assumes "plain_address s"
  shows "CHR ''['' \<notin> set s" and "strip CHR ''.'' s = s"
    and "dot_components s = split_on CHR ''.'' s"
proof -
  have all: "\<And>p. p \<in> set (split_on CHR ''.'' s) \<Longrightarrow> key_segment p"
    using assms by (simp add: plain_address_def list_all_iff)
  show "CHR ''['' \<notin> set s"
  proof
    assume "CHR ''['' \<in> set s"
    then obtain p where "p \<in> set (split_on CHR ''.'' s)" "CHR ''['' \<in> set p"
      using split_on_set [of "CHR ''[''" s "CHR ''.''"] by auto
    then show False using all [of p] by (simp add: key_segment_def)
  qed
  have ne: "s \<noteq> []"
    using all [of "[]"] by (auto simp: key_segment_def)
  have "hd (split_on CHR ''.'' s) \<in> set (split_on CHR ''.'' s)"
    by (simp add: split_on_not_Nil)
  then have "hd (split_on CHR ''.'' s) \<noteq> []"
    using all key_segment_def by blast
  then have h: "hd s \<noteq> CHR ''.''"
    using ne by (cases s) (auto split: if_splits)
  have "last (split_on CHR ''.'' s) \<in> set (split_on CHR ''.'' s)"
    by (simp add: split_on_not_Nil)
  then have "last (split_on CHR ''.'' s) \<noteq> []"
    using all key_segment_def by blast
  then have l: "last s \<noteq> CHR ''.''"
    by (simp add: split_on_last_empty)
  show "strip CHR ''.'' s = s"
    using ne h l by (rule strip_id)
  have "\<forall>p \<in> set (split_on CHR ''.'' s). p \<noteq> []"
    using all key_segment_def by blast
  then show "dot_components s = split_on CHR ''.'' s"
    by (simp add: dot_components_def)
qed

lemma to_path_plain:
  assumes "plain_address s"
  shows "to_path (PathStr s) = map Key (split_on CHR ''.'' s)"
  using plain_address_shape(1,2) [OF assms]
  by (simp add: to_path_def iter_path_def re_findall_plain re_split_plain)

lemma idx_match_token:
  assumes "ds \<noteq> []" and "list_all is_ascii_digit ds"
  shows "idx_match (index_token ds) = Some (ds, [])"
proof -
  have nd: "\<not> is_ascii_digit CHR '']''" by (simp add: is_ascii_digit_def)
  have "takeWhile is_ascii_digit (ds @ [CHR '']'']) = ds"
    using assms(2) nd by (simp add: list_all_iff takeWhile_append2)
  moreover have "dropWhile is_ascii_digit (ds @ [CHR '']'']) = [CHR '']'']"
    using assms(2) nd by (simp add: list_all_iff dropWhile_append2)
  ultimately show ?thesis
    using assms(1) by (simp add: idx_match_def index_token_def)
qed

text \<open>A match that starts before a final index token ends before it: a match holds one
  opening bracket only.\<close>

lemma idx_match_before_token:
  assumes "idx_match (c # t @ index_token ds) = Some (es, rest)"
  shows "\<exists>t'. rest = t' @ index_token ds \<and> length t' < length (c # t)"
proof -
  have nd: "\<not> is_ascii_digit CHR ''[''" by (simp add: is_ascii_digit_def)
  from assms have c: "c = CHR ''[''"
    by (auto simp: idx_match_def split: if_splits)
  show ?thesis
  proof (cases "list_all is_ascii_digit t")
    case True
    then have "dropWhile is_ascii_digit (t @ index_token ds) = index_token ds"
      using nd by (simp add: list_all_iff dropWhile_append2 index_token_def)
    with assms c show ?thesis
      by (simp add: idx_match_def index_token_def)
  next
    case False
    then obtain x where x: "x \<in> set t" "\<not> is_ascii_digit x"
      by (auto simp: list_all_iff)
    then have d: "dropWhile is_ascii_digit (t @ index_token ds)
        = dropWhile is_ascii_digit t @ index_token ds"
      by (simp add: dropWhile_append1)
    from x have ne: "dropWhile is_ascii_digit t \<noteq> []"
      by (auto simp: dropWhile_eq_Nil_conv)
    then obtain b r where br: "dropWhile is_ascii_digit t = b # r"
      by (cases "dropWhile is_ascii_digit t") auto
    have "length (dropWhile is_ascii_digit t) \<le> length t"
      by (rule length_dropWhile_le)
    then have "length r < length (c # t)" by (simp add: br)
    moreover from assms c have "rest = r @ index_token ds"
      by (auto simp: idx_match_def d br Let_def split: if_splits)
    ultimately show ?thesis by blast
  qed
qed

lemma re_split_before_token:
  assumes "ds \<noteq> []" and "list_all is_ascii_digit ds"
  shows "\<exists>front. front \<noteq> [] \<and> re_split (t @ index_token ds) = front @ [[]]"
proof (induction "length t" arbitrary: t rule: less_induct)
  case less
  show ?case
  proof (cases t)
    case Nil
    have "re_split (index_token ds) = [[], []]"
      using idx_match_token [OF assms] by (simp add: index_token_def)
    then show ?thesis by (simp add: Nil)
  next
    case (Cons c t')
    show ?thesis
    proof (cases "idx_match (c # t' @ index_token ds)")
      case None
      obtain front where f: "front \<noteq> []" "re_split (t' @ index_token ds) = front @ [[]]"
        using less [of t'] Cons by auto
      then obtain p ps where "front = p # ps" by (cases front) auto
      with f None have "re_split (t @ index_token ds) = ((c # p) # ps) @ [[]]"
        by (simp add: Cons)
      then show ?thesis by blast
    next
      case (Some m)
      obtain es rest where m: "m = (es, rest)" by (cases m)
      obtain t'' where t'': "rest = t'' @ index_token ds" "length t'' < length (c # t')"
        using idx_match_before_token [of c t' ds es rest] Some m by auto
      then obtain front where f: "front \<noteq> []" "re_split (t'' @ index_token ds) = front @ [[]]"
        using less [of t''] Cons by auto
      have "re_split (t @ index_token ds) = ([] # front) @ [[]]"
        using Some m t'' f by (simp add: Cons)
      then show ?thesis by blast
    qed
  qed
qed

lemma to_path_trailing_index:
  assumes "ds \<noteq> []" and "list_all is_ascii_digit ds"
  shows "to_path (PathStr (t @ index_token ds)) \<noteq> []"
    and "last (to_path (PathStr (t @ index_token ds))) = Key []"
proof -
  obtain front where "front \<noteq> []" "re_split (t @ index_token ds) = front @ [[]]"
    using re_split_before_token [OF assms] by blast
  then have l: "last (re_split (t @ index_token ds)) = []" by simp
  obtain pre where "iter_path (t @ index_token ds) = pre @ [Key [], Ix []]"
    using iter_path_tail [of "t @ index_token ds"] by (auto simp: l strip_def)
  then have "to_path (PathStr (t @ index_token ds)) = pre @ [Key []]"
    by (simp add: to_path_def butlast_append)
  then show "to_path (PathStr (t @ index_token ds)) \<noteq> []"
    and "last (to_path (PathStr (t @ index_token ds))) = Key []"
    by simp_all
qed

text \<open>The parser on an address that starts with text free of brackets and an index.\<close>

lemma iter_path_weave:
  "iter_path s = weave (re_split s) (map (\<lambda>i. Ix [int_of_digits (butlast (tl i))]) (re_findall s))"
  by (simp add: iter_path_def weave_def parts_def Let_def)

lemma weave_Cons:
  "weave (l # ls) (i # is) = parts l @ [i] @ weave ls is"
proof -
  have "[0 ..< length (l # ls)] = 0 # map Suc [0 ..< length ls]"
    by (simp add: upt_conv_Cons map_Suc_upt del: upt_Suc)
  then show ?thesis
    by (simp add: weave_def comp_def del: upt_Suc cong: if_cong)
qed

lemma iter_path_not_Nil: "iter_path s \<noteq> []"
  using iter_path_tail [of s] by auto

lemma idx_match_token_rest:
  assumes "index_digits ds"
  shows "idx_match (index_token ds @ rest) = Some (ds, rest)"
proof -
  have nd: "\<not> is_ascii_digit CHR '']''" by (simp add: is_ascii_digit_def)
  have "takeWhile is_ascii_digit (ds @ CHR '']'' # rest) = ds"
    using assms nd by (simp add: index_digits_def list_all_iff takeWhile_append2)
  moreover have "dropWhile is_ascii_digit (ds @ CHR '']'' # rest) = CHR '']'' # rest"
    using assms nd by (simp add: index_digits_def list_all_iff dropWhile_append2)
  ultimately show ?thesis
    using assms by (simp add: idx_match_def index_token_def index_digits_def)
qed

lemma re_split_plain_prefix:
  assumes "CHR ''['' \<notin> set u" and "index_digits ds"
  shows "re_split (u @ index_token ds @ rest) = u # re_split rest"
  using assms(1)
proof (induction u)
  case Nil
  have "index_token ds @ rest = CHR ''['' # ds @ CHR '']'' # rest"
    by (simp add: index_token_def)
  then show ?case
    using idx_match_token_rest [OF assms(2), of rest] by simp
next
  case (Cons c u)
  then have "c \<noteq> CHR ''[''" and "CHR ''['' \<notin> set u" by auto
  then show ?case using Cons.IH by (simp add: idx_match_no_bracket)
qed

lemma re_findall_plain_prefix:
  assumes "CHR ''['' \<notin> set u" and "index_digits ds"
  shows "re_findall (u @ index_token ds @ rest) = index_token ds # re_findall rest"
  using assms(1)
proof (induction u)
  case Nil
  have "index_token ds @ rest = CHR ''['' # ds @ CHR '']'' # rest"
    by (simp add: index_token_def)
  then show ?case
    using idx_match_token_rest [OF assms(2), of rest] by (simp add: index_token_def)
next
  case (Cons c u)
  then have "c \<noteq> CHR ''[''" and "CHR ''['' \<notin> set u" by auto
  then show ?case using Cons.IH by (simp add: idx_match_no_bracket)
qed

lemma to_path_plain_string:
  "CHR ''['' \<notin> set u \<Longrightarrow> to_path (PathStr u) = parts u"
  by (simp add: to_path_def iter_path_def parts_def re_findall_plain re_split_plain)

lemma to_path_index:
  assumes "CHR ''['' \<notin> set u" and "index_digits ds"
  shows "to_path (PathStr (u @ index_token ds @ rest))
    = parts u @ [Ix [int_of_digits ds]] @ to_path (PathStr rest)"
proof -
  have "butlast (tl (index_token ds)) = ds" by (simp add: index_token_def)
  then have "iter_path (u @ index_token ds @ rest)
      = parts u @ [Ix [int_of_digits ds]] @ iter_path rest"
    by (simp add: iter_path_weave re_split_plain_prefix [OF assms]
        re_findall_plain_prefix [OF assms] weave_Cons)
  then show ?thesis
    using iter_path_not_Nil [of rest] by (simp add: to_path_def butlast_append)
qed

text \<open>The parser on a valid address, segment by segment.\<close>

lemma strip_lead: "strip ch (ch # s) = strip ch s"
  by (simp add: strip_def)

lemma split_on_key_prefix:
  "sep \<notin> set k \<Longrightarrow> split_on sep (k @ sep # r) = k # split_on sep r"
  by (induction k) auto

lemma split_on_dotted:
  assumes "list_all plain_key ks" and "plain_key k"
  shows "split_on CHR ''.'' (dotted ks @ k) = ks @ [k]"
  using assms(1)
proof (induction ks)
  case Nil
  then show ?case using assms(2) by (simp add: dotted_def plain_key_def split_on_absent)
next
  case (Cons a ks)
  then have "CHR ''.'' \<notin> set a" by (simp add: plain_key_def)
  then have "split_on CHR ''.'' (a @ CHR ''.'' # dotted ks @ k) = a # split_on CHR ''.'' (dotted ks @ k)"
    by (rule split_on_key_prefix)
  then show ?case using Cons by (simp add: dotted_def)
qed

lemma dotted_ends:
  assumes "list_all plain_key ks" and "plain_key k"
  shows "dotted ks @ k \<noteq> []" and "hd (dotted ks @ k) \<noteq> CHR ''.''"
    and "last (dotted ks @ k) \<noteq> CHR ''.''"
proof -
  from assms(2) have k: "k \<noteq> []" "CHR ''.'' \<notin> set k"
    by (simp_all add: plain_key_def key_segment_def)
  then show "dotted ks @ k \<noteq> []" by simp
  from k have "hd k \<noteq> CHR ''.''" by (cases k) auto
  then show "hd (dotted ks @ k) \<noteq> CHR ''.''"
  proof (cases ks)
    case Nil
    then show ?thesis using \<open>hd k \<noteq> CHR ''.''\<close> by (simp add: dotted_def)
  next
    case (Cons a as)
    with assms(1) have "a \<noteq> []" "CHR ''.'' \<notin> set a"
      by (simp_all add: plain_key_def key_segment_def)
    then have "hd a \<noteq> CHR ''.''" by (cases a) auto
    then show ?thesis using \<open>a \<noteq> []\<close> by (simp add: dotted_def Cons)
  qed
  from k have "last k \<noteq> CHR ''.''" using last_in_set by metis
  then show "last (dotted ks @ k) \<noteq> CHR ''.''" using k(1) by simp
qed

lemma parts_dotted:
  assumes "list_all plain_key ks" and "plain_key k" and "lead = [] \<or> lead = ''.''"
  shows "parts (lead @ dotted ks @ k) = map Key (ks @ [k])"
proof -
  have "strip CHR ''.'' (dotted ks @ k) = dotted ks @ k"
    using dotted_ends [OF assms(1,2)] by (intro strip_id)
  then have "strip CHR ''.'' (lead @ dotted ks @ k) = dotted ks @ k"
    using assms(3) by (auto simp: strip_lead)
  then show ?thesis
    by (simp add: parts_def split_on_dotted [OF assms(1,2)])
qed

lemma no_bracket_dotted:
  assumes "list_all plain_key ks" and "plain_key k" and "lead = [] \<or> lead = ''.''"
  shows "CHR ''['' \<notin> set (lead @ dotted ks @ k)"
  using assms
  by (auto simp: dotted_def plain_key_def key_segment_def list_all_iff)

lemma render_Cons: "sgs \<noteq> [] \<Longrightarrow> render (sg # sgs) = render_segment sg @ ''.'' @ render sgs"
  by (cases sgs) (simp_all add: render_def)

lemma render_single: "render [sg] = render_segment sg"
  by (simp add: render_def)

lemma to_path_indices:
  assumes "list_all index_digits js"
  shows "to_path (PathStr (concat (map index_token js) @ tail))
    = concat (map (\<lambda>j. [Key [], Ix [int_of_digits j]]) js) @ to_path (PathStr tail)"
  using assms
proof (induction js)
  case Nil
  then show ?case by simp
next
  case (Cons j js)
  have "to_path (PathStr ([] @ index_token j @ (concat (map index_token js) @ tail)))
      = parts [] @ [Ix [int_of_digits j]]
        @ to_path (PathStr (concat (map index_token js) @ tail))"
    using Cons.prems by (intro to_path_index) simp_all
  then show ?case using Cons by (simp add: parts_def strip_def)
qed

lemma to_path_empty: "to_path (PathStr []) = [Key []]"
  by (simp add: to_path_def iter_path_empty)

lemma to_path_render_general:
  assumes "sgs \<noteq> []" and "list_all valid_segment sgs"
    and "list_all plain_key ks" and "lead = [] \<or> lead = ''.''"
  shows "to_path (PathStr (lead @ dotted ks @ render sgs)) = map Key ks @ address_path sgs"
  using assms
proof (induction sgs arbitrary: ks lead)
  case Nil
  then show ?case by simp
next
  case (Cons sg sgs)
  obtain k ixs where sg: "sg = (k, ixs)" by (cases sg)
  from Cons.prems(2) have rest: "list_all valid_segment sgs" by simp
  from Cons.prems(2) have "valid_segment (k, ixs)" by (simp add: sg)
  then have k: "plain_key k" and ixs: "list_all index_digits ixs"
    by (simp_all add: valid_segment_def plain_key_def)
  show ?case
  proof (cases ixs)
    case Nil
    show ?thesis
    proof (cases "sgs = []")
      case True
      have "to_path (PathStr (lead @ dotted ks @ k)) = parts (lead @ dotted ks @ k)"
        using no_bracket_dotted [OF Cons.prems(3) k Cons.prems(4)]
        by (rule to_path_plain_string)
      then show ?thesis
        using parts_dotted [OF Cons.prems(3) k Cons.prems(4)]
        by (simp add: True sg Nil render_single render_segment_def address_path_def
            segment_path_def)
    next
      case False
      have ks': "list_all plain_key (ks @ [k])" using Cons.prems(3) k by simp
      have "lead @ dotted ks @ render (sg # sgs) = lead @ dotted (ks @ [k]) @ render sgs"
        using False by (simp add: render_Cons sg Nil render_segment_def dotted_def)
      moreover have "to_path (PathStr (lead @ dotted (ks @ [k]) @ render sgs))
          = map Key (ks @ [k]) @ address_path sgs"
        using False rest ks' Cons.prems(4) by (rule Cons.IH)
      ultimately show ?thesis
        using False by (simp add: address_path_def segment_path_def sg Nil)
    qed
  next
    case (Cons i js)
    define tail where "tail = (if sgs = [] then [] else ''.'' @ render sgs)"
    have str: "lead @ dotted ks @ render (sg # sgs)
        = (lead @ dotted ks @ k) @ index_token i @ (concat (map index_token js) @ tail)"
      by (cases "sgs = []")
        (simp_all add: render_Cons render_single sg Cons render_segment_def tail_def)
    from ixs have i: "index_digits i" and js: "list_all index_digits js"
      by (simp_all add: Cons)
    have "to_path (PathStr ((lead @ dotted ks @ k) @ index_token i
          @ (concat (map index_token js) @ tail)))
        = parts (lead @ dotted ks @ k) @ [Ix [int_of_digits i]]
          @ to_path (PathStr (concat (map index_token js) @ tail))"
      using no_bracket_dotted [OF Cons.prems(3) k Cons.prems(4)] i
      by (rule to_path_index)
    then have step: "to_path (PathStr (lead @ dotted ks @ render (sg # sgs)))
        = map Key (ks @ [k]) @ [Ix [int_of_digits i]]
          @ concat (map (\<lambda>j. [Key [], Ix [int_of_digits j]]) js) @ to_path (PathStr tail)"
      by (simp only: str parts_dotted [OF Cons.prems(3) k Cons.prems(4)]
          to_path_indices [OF js])
    show ?thesis
    proof (cases "sgs = []")
      case True
      then show ?thesis
        using step
        by (simp add: tail_def to_path_empty address_path_def segment_path_def sg Cons)
    next
      case False
      have "to_path (PathStr (''.'' @ dotted [] @ render sgs)) = map Key [] @ address_path sgs"
        using False rest by (intro Cons.IH) simp_all
      then have "to_path (PathStr tail) = address_path sgs"
        using False by (simp add: tail_def dotted_def)
      then show ?thesis
        using step False
        by (simp add: address_path_def segment_path_def sg Cons)
    qed
  qed
qed

lemma to_path_render:
  assumes "sgs \<noteq> []" and "list_all valid_segment sgs"
  shows "to_path (PathStr (render sgs)) = address_path sgs"
  using to_path_render_general [OF assms, of "[]" "[]"] by (simp add: dotted_def)

lemma index_token_no_dot: "index_digits ds \<Longrightarrow> CHR ''.'' \<notin> set (index_token ds)"
proof -
  have "\<not> is_ascii_digit CHR ''.''" by (simp add: is_ascii_digit_def)
  then show "index_digits ds \<Longrightarrow> CHR ''.'' \<notin> set (index_token ds)"
    by (auto simp: index_token_def index_digits_def list_all_iff)
qed

lemma render_segment_no_dot:
  "valid_segment sg \<Longrightarrow> CHR ''.'' \<notin> set (render_segment sg) \<and> render_segment sg \<noteq> []"
  using index_token_no_dot
  by (auto simp: valid_segment_def render_segment_def key_segment_def list_all_iff)

lemma split_on_render:
  assumes "sgs \<noteq> []" and "list_all valid_segment sgs"
  shows "split_on CHR ''.'' (render sgs) = map render_segment sgs"
  using assms
proof (induction sgs)
  case Nil
  then show ?case by simp
next
  case (Cons sg sgs)
  have nd: "CHR ''.'' \<notin> set (render_segment sg)"
    using Cons.prems(2) render_segment_no_dot [of sg] by simp
  show ?case
  proof (cases "sgs = []")
    case True
    then show ?thesis using nd by (simp add: render_single split_on_absent)
  next
    case False
    then have "split_on CHR ''.'' (render sgs) = map render_segment sgs"
      using Cons by simp
    then show ?thesis
      using False nd by (simp add: render_Cons split_on_key_prefix)
  qed
qed

lemma dot_components_render:
  assumes "sgs \<noteq> []" and "list_all valid_segment sgs"
  shows "dot_components (render sgs) = map render_segment sgs"
proof -
  have "\<forall>sg \<in> set sgs. render_segment sg \<noteq> []"
    using assms(2) render_segment_no_dot by (auto simp: list_all_iff)
  then show ?thesis
    by (simp add: dot_components_def split_on_render [OF assms] filter_map comp_def)
qed

lemma length_segment_path:
  "single_index sg \<Longrightarrow> length (segment_path sg) = Suc (length (snd sg))"
  by (cases "snd sg") (auto simp: segment_path_def single_index_def)

lemma length_concat_segment_paths:
  "list_all single_index sgs \<Longrightarrow>
   length (concat (map segment_path sgs)) = length sgs + length (concat (map snd sgs))"
  by (induction sgs) (auto simp: length_segment_path)

text \<open>The indices \<^verbatim>\<open>re.findall\<close> finds in a valid address are those of its segments.\<close>

lemma re_findall_indices:
  assumes "list_all index_digits js"
  shows "re_findall (concat (map index_token js) @ tail) = map index_token js @ re_findall tail"
  using assms
proof (induction js)
  case Nil
  then show ?case by simp
next
  case (Cons j js)
  have "re_findall ([] @ index_token j @ (concat (map index_token js) @ tail))
      = index_token j # re_findall (concat (map index_token js) @ tail)"
    using Cons.prems by (intro re_findall_plain_prefix) simp_all
  then show ?case using Cons by simp
qed

lemma re_findall_render_general:
  assumes "sgs \<noteq> []" and "list_all valid_segment sgs" and "CHR ''['' \<notin> set u"
  shows "re_findall (u @ render sgs) = map index_token (concat (map snd sgs))"
  using assms
proof (induction sgs arbitrary: u)
  case Nil
  then show ?case by simp
next
  case (Cons sg sgs)
  obtain k ixs where sg: "sg = (k, ixs)" by (cases sg)
  from Cons.prems(2) have rest: "list_all valid_segment sgs" by simp
  from Cons.prems(2) have "valid_segment (k, ixs)" by (simp add: sg)
  then have k: "CHR ''['' \<notin> set k" and ixs: "list_all index_digits ixs"
    by (simp_all add: valid_segment_def key_segment_def)
  define tail where "tail = (if sgs = [] then [] else ''.'' @ render sgs)"
  have str: "u @ render (sg # sgs) = (u @ k) @ concat (map index_token ixs) @ tail"
    by (cases "sgs = []")
      (simp_all add: render_Cons render_single sg render_segment_def tail_def)
  have tl: "re_findall tail = map index_token (concat (map snd sgs))"
  proof (cases "sgs = []")
    case True
    then show ?thesis by (simp add: tail_def)
  next
    case False
    then show ?thesis
      using Cons.IH [of "''.''"] rest by (simp add: tail_def)
  qed
  have uk: "CHR ''['' \<notin> set (u @ k)" using Cons.prems(3) k by simp
  show ?case
  proof (cases ixs)
    case Nil
    have "re_findall ((u @ k) @ tail) = map index_token (concat (map snd sgs))"
    proof (cases "sgs = []")
      case True
      then show ?thesis using uk by (simp add: tail_def re_findall_plain)
    next
      case False
      have "re_findall ((u @ k @ ''.'') @ render sgs) = map index_token (concat (map snd sgs))"
        using False rest uk by (intro Cons.IH) simp_all
      then show ?thesis using False by (simp add: tail_def)
    qed
    then show ?thesis unfolding str by (simp add: sg Nil)
  next
    case (Cons i js)
    from ixs have i: "index_digits i" and js: "list_all index_digits js"
      by (simp_all add: Cons)
    have "re_findall ((u @ k) @ index_token i @ (concat (map index_token js) @ tail))
        = index_token i # re_findall (concat (map index_token js) @ tail)"
      using uk i by (rule re_findall_plain_prefix)
    then show ?thesis
      unfolding str by (simp add: sg Cons re_findall_indices [OF js] tl)
  qed
qed

lemma re_findall_render:
  assumes "sgs \<noteq> []" and "list_all valid_segment sgs"
  shows "re_findall (render sgs) = map index_token (concat (map snd sgs))"
  using re_findall_render_general [OF assms, of "[]"] by simp

section \<open>Facts about the walk\<close>

lemma traverse_scalar: "is_scalar v \<Longrightarrow> traverse v path cb = invoke cb path v"
  by (cases v) simp_all

lemma invoke_transformer:
  "invoke (Some (transformer target_path action)) path v =
     (if path = target_path then action v else Inr v)"
  by (simp add: invoke_def transformer_def)

lemma untouched_elems:
  assumes "\<And>x p. x \<in> set xs \<Longrightarrow> [] \<notin> set (dict_keys x) \<Longrightarrow> off_target p \<Longrightarrow>
             traverse x p cb = Inr x"
    and "[] \<notin> set (dict_keys_elems xs)"
  shows "traverse_elems xs i path cb = Inr xs"
  using assms
proof (induction xs arbitrary: i)
  case Nil
  then show ?case by simp
next
  case (Cons x xs)
  have "traverse x (path @ [Ix [int i]]) cb = Inr x"
    using Cons.prems by (simp add: off_target_def)
  moreover have "traverse_elems xs (Suc i) path cb = Inr xs"
    using Cons.prems by (intro Cons.IH) auto
  ultimately show ?case by simp
qed

lemma untouched_items:
  assumes "\<And>k x p. (k, x) \<in> set kvs \<Longrightarrow> [] \<notin> set (dict_keys x) \<Longrightarrow> off_target p \<Longrightarrow>
             traverse x p cb = Inr x"
    and "[] \<notin> set (dict_keys_items kvs)"
  shows "traverse_items kvs path cb = Inr kvs"
  using assms
proof (induction kvs)
  case Nil
  then show ?case by simp
next
  case (Cons kv kvs)
  obtain k x where kv: "kv = (k, x)" by (cases kv)
  have "k \<noteq> []" and "[] \<notin> set (dict_keys x)"
    using Cons.prems(2) by (auto simp: kv)
  then have "traverse x (path @ [Key k]) cb = Inr x"
    using Cons.prems(1) [of k x] by (simp add: off_target_def kv)
  moreover have "traverse_items kvs path cb = Inr kvs"
    using Cons.prems by (intro Cons.IH) auto
  ultimately show ?case by (simp add: kv)
qed

text \<open>A target that ends in the empty key is met by no node of a tree without empty
  keys, so the walk rebuilds the tree as it was.\<close>

lemma traverse_untouched:
  assumes "target_path \<noteq> []" and "last target_path = Key []"
  shows "[] \<notin> set (dict_keys v) \<Longrightarrow> off_target path \<Longrightarrow>
    traverse v path (Some (transformer target_path action)) = Inr v"
proof (induction v arbitrary: path)
  case (JList xs)
  have "traverse_elems xs 0 path (Some (transformer target_path action)) = Inr xs"
    using JList by (intro untouched_elems) auto
  moreover have "path \<noteq> target_path"
    using assms JList.prems(2) by (auto simp: off_target_def)
  ultimately show ?case by (simp add: invoke_transformer)
next
  case (JDict d)
  have "traverse_items d path (Some (transformer target_path action)) = Inr d"
  proof (rule untouched_items)
    fix k x p
    assume "(k, x) \<in> set d" and "[] \<notin> set (dict_keys x)" and "off_target p"
    then show "traverse x p (Some (transformer target_path action)) = Inr x"
      using JDict.IH [of "(k, x)" x p] by simp
  next
    show "[] \<notin> set (dict_keys_items d)" using JDict.prems by simp
  qed
  moreover have "path \<noteq> target_path"
    using assms JDict.prems(2) by (auto simp: off_target_def)
  ultimately show ?case by (simp add: invoke_transformer)
qed (use assms in \<open>auto simp: invoke_transformer off_target_def\<close>)

section \<open>Facts about the coercion\<close>

lemma set_type_fixed: "set_type v = Inr w \<Longrightarrow> set_type w = Inr w"
  by (cases v) (auto split: if_splits sum.splits)

lemma coerce_elems_again:
  assumes "\<And>x p w q. x \<in> set xs \<Longrightarrow> traverse x p (Some (\<lambda>path. set_type)) = Inr w \<Longrightarrow>
             traverse w q (Some (\<lambda>path. set_type)) = Inr w"
    and "traverse_elems xs i p (Some (\<lambda>path. set_type)) = Inr ws"
  shows "traverse_elems ws j q (Some (\<lambda>path. set_type)) = Inr ws"
  using assms
proof (induction xs arbitrary: i ws j)
  case Nil
  then show ?case by simp
next
  case (Cons x xs)
  from Cons.prems(2) obtain y ys where
    y: "traverse x (p @ [Ix [int i]]) (Some (\<lambda>path. set_type)) = Inr y" and
    ys: "traverse_elems xs (Suc i) p (Some (\<lambda>path. set_type)) = Inr ys" and
    ws: "ws = y # ys"
    by (auto split: sum.splits)
  have "traverse y (q @ [Ix [int j]]) (Some (\<lambda>path. set_type)) = Inr y"
    using Cons.prems(1) [of x] y by simp
  moreover have "traverse_elems ys (Suc j) q (Some (\<lambda>path. set_type)) = Inr ys"
  proof (rule Cons.IH [OF _ ys])
    fix x' p w q
    assume "x' \<in> set xs" and "traverse x' p (Some (\<lambda>path. set_type)) = Inr w"
    then show "traverse w q (Some (\<lambda>path. set_type)) = Inr w"
      using Cons.prems(1) [of x' p w q] by simp
  qed
  ultimately show ?case by (simp add: ws)
qed

lemma coerce_items_again:
  assumes "\<And>k x p w q. (k, x) \<in> set kvs \<Longrightarrow> traverse x p (Some (\<lambda>path. set_type)) = Inr w \<Longrightarrow>
             traverse w q (Some (\<lambda>path. set_type)) = Inr w"
    and "traverse_items kvs p (Some (\<lambda>path. set_type)) = Inr ws"
  shows "traverse_items ws q (Some (\<lambda>path. set_type)) = Inr ws"
  using assms
proof (induction kvs arbitrary: ws)
  case Nil
  then show ?case by simp
next
  case (Cons kv kvs)
  obtain k x where kv: "kv = (k, x)" by (cases kv)
  from Cons.prems(2) obtain y ys where
    y: "traverse x (p @ [Key k]) (Some (\<lambda>path. set_type)) = Inr y" and
    ys: "traverse_items kvs p (Some (\<lambda>path. set_type)) = Inr ys" and
    ws: "ws = (k, y) # ys"
    by (auto simp: kv split: sum.splits)
  have "traverse y (q @ [Key k]) (Some (\<lambda>path. set_type)) = Inr y"
    using Cons.prems(1) [of k x] y by (simp add: kv)
  moreover have "traverse_items ys q (Some (\<lambda>path. set_type)) = Inr ys"
  proof (rule Cons.IH [OF _ ys])
    fix k' x' p w q
    assume "(k', x') \<in> set kvs" and "traverse x' p (Some (\<lambda>path. set_type)) = Inr w"
    then show "traverse w q (Some (\<lambda>path. set_type)) = Inr w"
      using Cons.prems(1) [of k' x' p w q] by simp
  qed
  ultimately show ?case by (simp add: ws)
qed

text \<open>A coerced tree is coerced to itself, wherever the walk starts.\<close>

lemma coerce_again:
  "traverse v p (Some (\<lambda>path. set_type)) = Inr w \<Longrightarrow>
   traverse w q (Some (\<lambda>path. set_type)) = Inr w"
proof (induction v arbitrary: p w q)
  case (JStr s)
  then show ?case
    by (auto simp: invoke_def split: if_splits sum.splits)
next
  case (JList xs)
  from JList.prems obtain ys where
    ys: "traverse_elems xs 0 p (Some (\<lambda>path. set_type)) = Inr ys" and w: "w = JList ys"
    by (auto simp: invoke_def split: sum.splits)
  have "traverse_elems ys 0 q (Some (\<lambda>path. set_type)) = Inr ys"
    using coerce_elems_again [OF _ ys] JList.IH by blast
  then show ?case by (simp add: w invoke_def)
next
  case (JDict d)
  from JDict.prems obtain d' where
    d': "traverse_items d p (Some (\<lambda>path. set_type)) = Inr d'" and w: "w = JDict d'"
    by (auto simp: invoke_def split: sum.splits)
  have "traverse_items d' q (Some (\<lambda>path. set_type)) = Inr d'"
  proof (rule coerce_items_again [OF _ d'])
    fix k x p w q
    assume "(k, x) \<in> set d" and "traverse x p (Some (\<lambda>path. set_type)) = Inr w"
    then show "traverse w q (Some (\<lambda>path. set_type)) = Inr w"
      using JDict.IH [of "(k, x)" x] by simp
  qed
  then show ?case by (simp add: w invoke_def)
qed (auto simp: invoke_def)

text \<open>What \<open>set_type\<close> does to a string, case by case, and to anything else.\<close>

lemma set_type_not_string: "(\<And>s. v \<noteq> JStr s) \<Longrightarrow> set_type v = Inr v"
  by (cases v) auto

lemma lower_ascii_digits: "list_all is_ascii_digit s \<Longrightarrow> lower s = s"
  by (induction s) (auto simp: lower_def lower_char_def is_ascii_digit_def Let_def)

lemma set_type_decimal:
  assumes "s \<noteq> []" and "list_all is_ascii_digit s"
  shows "set_type (JStr s) = Inr (JInt (int_of_digits s))"
proof -
  have "\<not> list_all is_ascii_digit ''false''" and "\<not> list_all is_ascii_digit ''true''"
    by (simp_all add: is_ascii_digit_def)
  with assms(2) have "s \<noteq> ''false''" and "s \<noteq> ''true''" by auto
  moreover have "isdigit s"
    using assms by (auto simp: isdigit_def isdigit_char_def list_all_iff)
  ultimately show ?thesis
    using assms by (simp add: lower_ascii_digits py_int_def)
qed

lemma set_type_other_string:
  "lower s \<noteq> ''false'' \<Longrightarrow> lower s \<noteq> ''true'' \<Longrightarrow> \<not> isdigit s \<Longrightarrow> set_type (JStr s) = Inr (JStr s)"
  by simp

lemma set_type_superscript:
  assumes "isdigit s" and "\<not> list_all is_ascii_digit s"
  shows "set_type (JStr s) = Inl ValueError"
proof -
  from assms obtain c where c: "c \<in> set s" "isdigit_char c" "\<not> is_ascii_digit c"
    by (auto simp: isdigit_def list_all_iff)
  then have "c = CHR 0xB2 \<or> c = CHR 0xB3 \<or> c = CHR 0xB9"
    by (auto simp: isdigit_char_def)
  then have "lower_char c \<noteq> CHR ''f'' \<and> lower_char c \<noteq> CHR ''a'' \<and> lower_char c \<noteq> CHR ''l''
      \<and> lower_char c \<noteq> CHR ''s'' \<and> lower_char c \<noteq> CHR ''e'' \<and> lower_char c \<noteq> CHR ''t''
      \<and> lower_char c \<noteq> CHR ''r'' \<and> lower_char c \<noteq> CHR ''u''"
    by (auto simp: lower_char_def)
  then have "lower_char c \<notin> set ''false''" and "lower_char c \<notin> set ''true''" by simp_all
  moreover have "lower_char c \<in> set (lower s)"
    using c(1) by (simp add: lower_def)
  ultimately have "lower s \<noteq> ''false''" and "lower s \<noteq> ''true''" by metis+
  then show ?thesis
    using assms by (simp add: py_int_def)
qed

lemma set_type_examples:
  "set_type (JStr ''true'') = Inr (JBool True)"
  "set_type (JStr ''FALSE'') = Inr (JBool False)"
  "set_type (JStr ''42'') = Inr (JInt 42)"
  "set_type (JStr ''007'') = Inr (JInt 7)"
  "set_type (JStr ''4.5'') = Inr (JStr ''4.5'')"
  "set_type (JStr ''on'') = Inr (JStr ''on'')"
  "set_type (JStr []) = Inr (JStr [])"
  by code_simp+

text \<open>The coercion returns on every value whose string leaves \<^verbatim>\<open>int\<close> can read, and its
  result is a fixed point.\<close>

lemma fix_types_fixed_point: "fix_types v = Inr w \<Longrightarrow> fix_types w = Inr w"
  using coerce_again [of v] by (simp add: fix_types_def traverse_modify_all_def)

lemma set_type_returns: "int_readable s \<Longrightarrow> \<exists>w. set_type (JStr s) = Inr w"
  by (auto simp: int_readable_def py_int_def isdigit_def split: if_splits)

lemma coerce_elems_returns:
  assumes "\<And>x p. x \<in> set xs \<Longrightarrow> list_all int_readable (strings_of x) \<Longrightarrow>
             \<exists>w. traverse x p (Some (\<lambda>path. set_type)) = Inr w"
    and "list_all int_readable (strings_of_elems xs)"
  shows "\<exists>ws. traverse_elems xs i p (Some (\<lambda>path. set_type)) = Inr ws"
  using assms
proof (induction xs arbitrary: i)
  case Nil
  then show ?case by simp
next
  case (Cons x xs)
  obtain y where "traverse x (p @ [Ix [int i]]) (Some (\<lambda>path. set_type)) = Inr y"
    using Cons.prems(1) [of x] Cons.prems(2) by auto
  moreover have "\<exists>ys. traverse_elems xs (Suc i) p (Some (\<lambda>path. set_type)) = Inr ys"
  proof (rule Cons.IH)
    fix x' p'
    assume "x' \<in> set xs" and "list_all int_readable (strings_of x')"
    then show "\<exists>w. traverse x' p' (Some (\<lambda>path. set_type)) = Inr w"
      using Cons.prems(1) [of x' p'] by simp
  next
    show "list_all int_readable (strings_of_elems xs)" using Cons.prems(2) by simp
  qed
  then obtain ys where "traverse_elems xs (Suc i) p (Some (\<lambda>path. set_type)) = Inr ys"
    by blast
  ultimately show ?case by simp
qed

lemma coerce_items_returns:
  assumes "\<And>k x p. (k, x) \<in> set kvs \<Longrightarrow> list_all int_readable (strings_of x) \<Longrightarrow>
             \<exists>w. traverse x p (Some (\<lambda>path. set_type)) = Inr w"
    and "list_all int_readable (strings_of_items kvs)"
  shows "\<exists>ws. traverse_items kvs p (Some (\<lambda>path. set_type)) = Inr ws"
  using assms
proof (induction kvs)
  case Nil
  then show ?case by simp
next
  case (Cons kv kvs)
  obtain k x where kv: "kv = (k, x)" by (cases kv)
  obtain y where "traverse x (p @ [Key k]) (Some (\<lambda>path. set_type)) = Inr y"
    using Cons.prems(1) [of k x] Cons.prems(2) by (auto simp: kv)
  moreover have "\<exists>ys. traverse_items kvs p (Some (\<lambda>path. set_type)) = Inr ys"
  proof (rule Cons.IH)
    fix k' x' p'
    assume "(k', x') \<in> set kvs" and "list_all int_readable (strings_of x')"
    then show "\<exists>w. traverse x' p' (Some (\<lambda>path. set_type)) = Inr w"
      using Cons.prems(1) [of k' x' p'] by simp
  next
    show "list_all int_readable (strings_of_items kvs)" using Cons.prems(2) by simp
  qed
  then obtain ys where "traverse_items kvs p (Some (\<lambda>path. set_type)) = Inr ys" by blast
  ultimately show ?case by (simp add: kv)
qed

lemma coerce_returns:
  "list_all int_readable (strings_of v) \<Longrightarrow>
   \<exists>w. traverse v p (Some (\<lambda>path. set_type)) = Inr w"
proof (induction v arbitrary: p)
  case (JStr s)
  then show ?case
    using set_type_returns [of s] by (simp add: invoke_def)
next
  case (JList xs)
  obtain ys where "traverse_elems xs 0 p (Some (\<lambda>path. set_type)) = Inr ys"
    using coerce_elems_returns [of xs 0 p] JList by auto
  then show ?case by (simp add: invoke_def)
next
  case (JDict d)
  have "\<exists>ws. traverse_items d p (Some (\<lambda>path. set_type)) = Inr ws"
  proof (rule coerce_items_returns)
    fix k x p
    assume "(k, x) \<in> set d" and "list_all int_readable (strings_of x)"
    then show "\<exists>w. traverse x p (Some (\<lambda>path. set_type)) = Inr w"
      using JDict.IH [of "(k, x)" x p] by simp
  next
    show "list_all int_readable (strings_of_items d)" using JDict.prems by simp
  qed
  then show ?case by (auto simp: invoke_def)
qed (simp_all add: invoke_def)

lemma fix_types_returns:
  "list_all int_readable (strings_of v) \<Longrightarrow> \<exists>w. fix_types v = Inr w"
  by (simp add: fix_types_def traverse_modify_all_def coerce_returns)

section \<open>Facts about the handler\<close>

lemma map_of_copy_key:
  "map_of (copy_key md acc a) k =
     (if k = a \<and> map_of md a \<noteq> None then map_of md a else map_of acc k)"
  by (cases "map_of md a") (auto simp: copy_key_def update_conv')

lemma map_of_copy_keys:
  "map_of (foldl (copy_key md) acc ks) k =
     (if k \<in> set ks \<and> map_of md k \<noteq> None then map_of md k else map_of acc k)"
proof (induction ks arbitrary: acc)
  case Nil
  then show ?case by simp
next
  case (Cons a ks)
  show ?case
    by (auto simp: Cons map_of_copy_key)
qed

text \<open>\<^verbatim>\<open>generate_name\<close> takes an empty physical id as none, and raises on a stack id
  without a second segment.\<close>

lemma generate_name_empty_id: "generate_name ev (Some []) = generate_name ev None"
  by (simp add: generate_name_def Let_def split: jv.splits option.splits)

lemma generate_name_no_slash:
  "CHR ''/'' \<notin> set (StackId ev) \<Longrightarrow> generate_name ev pid = Inl IndexError"
  by (simp add: generate_name_def split_on_absent)

text \<open>What the preparation leaves in the variables: no response data, the physical id
  of the event or none yet, and no command run.\<close>

lemma prepare_vars:
  assumes "prepare w ev s = (r, s')"
  shows "response_data s' = response_data s"
    and "physical_resource_id s' = physical_resource_id s
         \<or> (\<exists>p. PhysicalResourceId ev = Some p \<and> physical_resource_id s' = Some (JStr p))"
    and "r = None \<Longrightarrow> physical_resource_id s' =
           (case PhysicalResourceId ev of None \<Rightarrow> physical_resource_id s
            | Some p \<Rightarrow> Some (JStr p))"
    and "RunCommand c \<in> set (effects s') \<Longrightarrow> RunCommand c \<in> set (effects s)"
  using assms
  by (auto simp: prepare_def Let_def split: option.splits if_splits sum.splits prod.splits)

lemma create_branch_skip: "RequestType ev \<noteq> ''Create'' \<Longrightarrow> create_branch w ev s = (None, s)"
  by (simp add: create_branch_def)

lemma update_branch_skip: "RequestType ev \<noteq> ''Update'' \<Longrightarrow> update_branch w ev s = (None, s)"
  by (simp add: update_branch_def)

lemma delete_branch_skip: "RequestType ev \<noteq> ''Delete'' \<Longrightarrow> delete_branch w ev s = (None, s)"
  by (simp add: delete_branch_def)

lemma update_branch_pid:
  "update_branch w ev s = (r, s') \<Longrightarrow> physical_resource_id s' = physical_resource_id s"
  by (auto simp: update_branch_def run_and_extract_def Let_def split: if_splits sum.splits)

lemma delete_branch_vars:
  assumes "delete_branch w ev s = (r, s')"
  shows "physical_resource_id s' = physical_resource_id s"
    and "response_data s' = response_data s"
  using assms
  by (auto simp: delete_branch_def Let_def
      split: if_splits sum.splits option.splits jv.splits)

lemma create_branch_vars:
  assumes "create_branch w ev s = (r, s')"
  shows "physical_resource_id s' = physical_resource_id s
         \<or> (r = None \<and> RequestType ev = ''Create'' \<and>
             (\<exists>link. physical_resource_id s' = Some link
                \<and> map_of (response_data s') ''selfLink'' = Some link))"
  using assms
  by (auto simp: create_branch_def run_and_extract_def Let_def
      split: if_splits sum.splits option.splits prod.splits)

lemma seq_cases:
  assumes "seq f g s = (r, s')"
  obtains (stop) err where "f s = (Some err, s')" "r = Some err"
  | (go) s1 where "f s = (None, s1)" "g s1 = (r, s')"
  using assms by (auto simp: seq_def split: prod.splits option.splits)

lemma try_block_not_create:
  assumes "RequestType ev \<noteq> ''Create''" and "try_block w ev initial_vars = (r, s)"
  shows "physical_resource_id s = None
         \<or> (\<exists>p. PhysicalResourceId ev = Some p \<and> physical_resource_id s = Some (JStr p))"
proof -
  have init: "physical_resource_id initial_vars = None" by (simp add: initial_vars_def)
  from assms(2) show ?thesis
    unfolding try_block_def
  proof (cases rule: seq_cases)
    case (stop err)
    then show ?thesis using prepare_vars(2) [OF stop(1)] init by auto
  next
    case (go s1)
    have s1: "physical_resource_id s1 = None
         \<or> (\<exists>p. PhysicalResourceId ev = Some p \<and> physical_resource_id s1 = Some (JStr p))"
      using prepare_vars(2) [OF go(1)] init by auto
    from go(2) have "seq (update_branch w ev) (delete_branch w ev) s1 = (r, s)"
      by (simp add: seq_def create_branch_skip [OF assms(1)])
    then show ?thesis
    proof (cases rule: seq_cases)
      case (stop err)
      then show ?thesis using update_branch_pid s1 by metis
    next
      case (go s2)
      then show ?thesis using update_branch_pid delete_branch_vars(1) s1 by metis
    qed
  qed
qed

text \<open>The physical id the handler holds at its end: none, the one of the event, or after
  a Create that went through the \<^verbatim>\<open>selfLink\<close> of the response data.\<close>

lemma try_block_pid:
  assumes "try_block w ev initial_vars = (r, s)"
  shows "physical_resource_id s = None
    \<or> (\<exists>p. PhysicalResourceId ev = Some p \<and> physical_resource_id s = Some (JStr p))
    \<or> (r = None \<and> RequestType ev = ''Create'' \<and>
        (\<exists>link. physical_resource_id s = Some link
           \<and> map_of (response_data s) ''selfLink'' = Some link))"
proof (cases "RequestType ev = ''Create''")
  case False
  then show ?thesis using try_block_not_create [OF False assms] by blast
next
  case True
  have init: "physical_resource_id initial_vars = None" by (simp add: initial_vars_def)
  have skip: "seq (update_branch w ev) (delete_branch w ev) = (\<lambda>s. (None, s))"
    using True by (auto simp: seq_def update_branch_skip delete_branch_skip)
  from assms have "seq (prepare w ev) (create_branch w ev) initial_vars = (r, s)"
    by (auto simp: try_block_def skip seq_def split: prod.splits option.splits)
  then show ?thesis
  proof (cases rule: seq_cases)
    case (stop err)
    then show ?thesis using prepare_vars(2) [OF stop(1)] init by auto
  next
    case (go s1)
    then show ?thesis
      using prepare_vars(2) [OF go(1)] create_branch_vars [OF go(2)] init by auto
  qed
qed

lemma handler_cases:
  obtains (ok) s where "try_block w ev initial_vars = (None, s)"
      "lambda_handler w ev ctx =
         (effects s, send ev ctx SUCCESS (response_data s) (physical_resource_id s) None)"
  | (failed) err s where "try_block w ev initial_vars = (Some err, s)"
      "lambda_handler w ev ctx =
         (effects s, send ev ctx FAILED (response_data s) (physical_resource_id s) (Some err))"
proof (cases "try_block w ev initial_vars")
  case (Pair r s)
  then show ?thesis
    by (cases r) (auto simp: lambda_handler_def intro: that)
qed

lemma try_block_delete:
  assumes "RequestType ev = ''Delete''"
  shows "try_block w ev s = seq (prepare w ev) (delete_branch w ev) s"
  using assms
  by (auto simp: try_block_def seq_def create_branch_skip update_branch_skip
      split: prod.splits option.splits)

lemma initial_effects: "effects initial_vars = []"
  by (simp add: initial_vars_def)

text \<open>The Create branch: it goes through exactly when the tool returns an object whose
  metadata has a \<^verbatim>\<open>selfLink\<close>, and then holds that link as the physical id.\<close>

lemma failed_not_success: "FAILED \<noteq> SUCCESS"
  by (simp add: FAILED_def SUCCESS_def)

lemma try_block_create:
  assumes "RequestType ev = ''Create''"
  shows "try_block w ev s = seq (prepare w ev) (create_branch w ev) s"
  using assms
  by (auto simp: try_block_def seq_def update_branch_skip delete_branch_skip
      split: prod.splits option.splits)

lemma selfLink_output_key: "''selfLink'' \<in> set output_keys"
  by (simp add: output_keys_def)

lemma build_output_selfLink:
  assumes "build_output kube = Inr outp"
  shows "\<exists>d md. kube = JDict d \<and> map_of d ''metadata'' = Some (JDict md)
           \<and> map_of outp ''selfLink'' = map_of md ''selfLink''"
proof -
  from assms obtain d md where k: "kube = JDict d" "map_of d ''metadata'' = Some (JDict md)"
    and o: "outp = foldl (copy_key md) [] output_keys"
    by (auto simp: build_output_def split: jv.splits option.splits)
  have "map_of outp ''selfLink'' = map_of md ''selfLink''"
    by (cases "map_of md ''selfLink''") (simp_all add: o map_of_copy_keys selfLink_output_key)
  with k show ?thesis by blast
qed

lemma create_branch_success:
  assumes "RequestType ev = ''Create''" and "create_branch w ev s = (None, s')"
  shows "\<exists>out d md link. run_command w create_command = Inr out
           \<and> json_loads w out = Inr (JDict d)
           \<and> map_of d ''metadata'' = Some (JDict md)
           \<and> map_of md ''selfLink'' = Some link
           \<and> physical_resource_id s' = Some link
           \<and> map_of (response_data s') ''selfLink'' = Some link"
proof -
  from assms obtain outp link where
    r: "and_then (and_then (run_command w create_command) (json_loads w)) build_output = Inr outp"
    and l: "map_of outp ''selfLink'' = Some link"
    and s': "physical_resource_id s' = Some link" "response_data s' = outp"
    by (auto simp: create_branch_def run_and_extract_def Let_def
        split: sum.splits option.splits prod.splits)
  from r obtain out kube where out: "run_command w create_command = Inr out"
    and kube: "json_loads w out = Inr kube" and b: "build_output kube = Inr outp"
    by (auto simp: and_then_def split: sum.splits)
  from build_output_selfLink [OF b] l obtain d md where
    "kube = JDict d" "map_of d ''metadata'' = Some (JDict md)" "map_of md ''selfLink'' = Some link"
    by auto
  with out kube s' l show ?thesis by blast
qed

lemma create_branch_runs:
  assumes "RequestType ev = ''Create''" and "run_command w create_command = Inr out"
    and "json_loads w out = Inr (JDict d)" and "map_of d ''metadata'' = Some (JDict md)"
    and "map_of md ''selfLink'' = Some link"
  shows "\<exists>s'. create_branch w ev s = (None, s') \<and> physical_resource_id s' = Some link"
proof -
  have b: "build_output (JDict d) = Inr (foldl (copy_key md) [] output_keys)"
    using assms(4) by (simp add: build_output_def)
  have "map_of (foldl (copy_key md) [] output_keys) ''selfLink'' = Some link"
    using assms(5) by (simp add: map_of_copy_keys selfLink_output_key)
  then show ?thesis
    using assms(1,2,3) b
    by (simp add: create_branch_def run_and_extract_def Let_def and_then_def)
qed

lemma send_truthy:
  "truthy link \<Longrightarrow> respPhysicalResourceId (send ev ctx st rd (Some link) reason) = link"
  by (simp add: send_def)

text \<open>An id of the documented shape is found by the search, and an id the search finds
  has that shape, possibly with one newline after it.\<close>

lemma fallback_shape_found: "fallback_shape p \<Longrightarrow> fallback_search p"
  by (simp add: fallback_search_def)

lemma fallback_search_shape:
  "fallback_search p \<Longrightarrow> fallback_shape p \<or> (\<exists>q. p = q @ [CHR 0x0A] \<and> fallback_shape q)"
  by (auto simp: fallback_search_def) (metis append_butlast_last_id)

section \<open>Facts about the watchdog\<close>

text \<open>The report of the watchdog carries the physical id of the event.\<close>

lemma timeout_physical_id:
  "PhysicalResourceId ev = Some p \<Longrightarrow> respPhysicalResourceId (timeout ev ctx) = JStr p"
  by (simp add: timeout_def send_def)

lemma occur_inv: "reports_inv r \<Longrightarrow> reports_inv (occur w ev ctx r occ)"
  by (cases occ) (auto simp: reports_inv_def occur_def)

lemma foldl_occur_inv: "reports_inv r \<Longrightarrow> reports_inv (foldl (occur w ev ctx) r occs)"
  by (induction occs arbitrary: r) (auto simp: occur_inv)

lemma foldl_occur_done:
  "main_done r \<or> MainPathCompletes \<in> set occs \<Longrightarrow> main_done (foldl (occur w ev ctx) r occs)"
proof (induction occs arbitrary: r)
  case Nil
  then show ?case by simp
next
  case (Cons a occs)
  have "main_done (occur w ev ctx r a) \<or> MainPathCompletes \<in> set occs"
    using Cons.prems by (cases a) (auto simp: occur_def)
  then show ?case using Cons.IH by simp
qed

text \<open>Once the main path has completed there is one report or there are two.\<close>

lemma reports_bounds:
  assumes "MainPathCompletes \<in> set occs"
  shows "1 \<le> length (sent (invocation w ev ctx occs))"
    and "length (sent (invocation w ev ctx occs)) \<le> 2"
proof -
  have "reports_inv started" by (simp add: reports_inv_def started_def)
  then have i: "reports_inv (invocation w ev ctx occs)"
    unfolding invocation_def by (rule foldl_occur_inv)
  have d: "main_done (invocation w ev ctx occs)"
    unfolding invocation_def using assms by (intro foldl_occur_done) simp
  from i d show "1 \<le> length (sent (invocation w ev ctx occs))"
    and "length (sent (invocation w ev ctx occs)) \<le> 2"
    by (auto simp: reports_inv_def)
qed

text \<open>When the main path completes before the timer fires, the timer is cancelled and
  the report of the main path is the only one.\<close>

lemma main_first_one_report:
  "length (sent (invocation w ev ctx (MainPathCompletes # occs))) = 1"
proof -
  have a: "reports_inv (occur w ev ctx started MainPathCompletes)"
    by (simp add: reports_inv_def occur_def started_def)
  have b: "timer_state (foldl (occur w ev ctx) r occs) = Cancelled
      \<and> main_done (foldl (occur w ev ctx) r occs)"
    if "timer_state r = Cancelled" "main_done r" for r
    using that
  proof (induction occs arbitrary: r)
    case Nil
    then show ?case by simp
  next
    case (Cons a occs)
    have "timer_state (occur w ev ctx r a) = Cancelled" "main_done (occur w ev ctx r a)"
      using Cons.prems by (cases a; simp add: occur_def)+
    then show ?case using Cons.IH by simp
  qed
  have c: "timer_state (occur w ev ctx started MainPathCompletes) = Cancelled"
      "main_done (occur w ev ctx started MainPathCompletes)"
    by (simp_all add: occur_def started_def)
  have "reports_inv (invocation w ev ctx (MainPathCompletes # occs))"
    unfolding invocation_def using a by (simp add: foldl_occur_inv)
  moreover have "timer_state (invocation w ev ctx (MainPathCompletes # occs)) = Cancelled"
    "main_done (invocation w ev ctx (MainPathCompletes # occs))"
    unfolding invocation_def using b [OF c] by simp_all
  ultimately show ?thesis by (simp add: reports_inv_def)
qed

section \<open>The claims\<close>

subsection \<open>C1: the Delete branch\<close>

text \<open>
  C1 says that for every Delete request a physical id that matches the fallback-id pattern
  leads to no external delete and to a success report with an empty payload, and that any
  other id leads to the delete command. The handler reaches the pattern test only after
  its preparation (search path, kubeconfig path and retrieval, naming and coercion of the
  manifest); a Delete whose preparation raises reports FAILED and runs no command,
  whatever its id. \<open>rollback_delete_bad_path\<close> is such a request: its id has the fallback
  shape, its kubeconfig path is not an s3 URI, and the report is FAILED. With an id that
  does not match, the same request runs no delete command either.
\<close>

theorem delete_fails_before_pattern_check:
  "RequestType rollback_delete_bad_path = ''Delete''
   \<and> PhysicalResourceId rollback_delete_bad_path = Some fallback_id
   \<and> fallback_shape fallback_id
   \<and> respStatus (snd (lambda_handler calm_world rollback_delete_bad_path some_context)) = FAILED
   \<and> FAILED \<noteq> SUCCESS
   \<and> \<not> fallback_search ''/api/v1/namespaces/default/pods/x''
   \<and> fst (lambda_handler calm_world
        (rollback_delete_bad_path\<lparr>PhysicalResourceId :=
           Some ''/api/v1/namespaces/default/pods/x''\<rparr>) some_context) = []"
  by code_simp

text \<open>
  C1, as amended. For every Delete request with a physical id \<open>p\<close>: if the search for the
  pattern finds \<open>p\<close>, no command is run at all; and whenever the preparation succeeds,
  leaving the variables \<open>s\<close>, a \<open>p\<close> that the search finds adds no effect, the report is
  SUCCESS and carries no data, and a \<open>p\<close> that the search does not find adds exactly the
  delete command on the manifest file. (\<open>fallback_shape_found\<close> and \<open>fallback_search_shape\<close>
  relate the search to the documented shape.)
\<close>

theorem delete_decided_by_pattern:
  assumes "RequestType ev = ''Delete''" and "PhysicalResourceId ev = Some p"
  shows "(fallback_search p \<longrightarrow> (\<forall>c. RunCommand c \<notin> set (fst (lambda_handler w ev ctx)))) \<and>
    (\<forall>s. prepare w ev initial_vars = (None, s) \<longrightarrow>
       (fallback_search p \<longrightarrow>
          fst (lambda_handler w ev ctx) = effects s \<and>
          respStatus (snd (lambda_handler w ev ctx)) = SUCCESS \<and>
          respData (snd (lambda_handler w ev ctx)) = None) \<and>
       (\<not> fallback_search p \<longrightarrow>
          fst (lambda_handler w ev ctx) = effects s @ [RunCommand delete_command]))"
proof (cases "prepare w ev initial_vars")
  case (Pair r s)
  have quiet: "RunCommand c \<notin> set (effects s)" for c
    using prepare_vars(4) [OF Pair] by (auto simp: initial_effects)
  show ?thesis
  proof (cases r)
    case (Some err)
    then have "fst (lambda_handler w ev ctx) = effects s"
      using Pair by (simp add: lambda_handler_def try_block_delete [OF assms(1)] seq_def)
    then show ?thesis using quiet Pair Some by simp
  next
    case None
    have pid: "physical_resource_id s = Some (JStr p)"
      using prepare_vars(3) [OF Pair None] assms(2) by simp
    have rd: "response_data s = []"
      using prepare_vars(1) [OF Pair] by (simp add: initial_vars_def)
    show ?thesis
    proof (cases "fallback_search p")
      case True
      then have "try_block w ev initial_vars = (None, s)"
        using Pair None pid assms(1)
        by (simp add: try_block_delete seq_def delete_branch_def)
      then show ?thesis
        using True quiet Pair None rd by (simp add: lambda_handler_def send_def)
    next
      case False
      then have "\<exists>r'. try_block w ev initial_vars
          = (r', s\<lparr>effects := effects s @ [RunCommand delete_command]\<rparr>)"
        using Pair None pid assms(1)
        by (auto simp: try_block_delete seq_def delete_branch_def Let_def split: sum.splits)
      then obtain r' where "try_block w ev initial_vars
          = (r', s\<lparr>effects := effects s @ [RunCommand delete_command]\<rparr>)" by blast
      then have "fst (lambda_handler w ev ctx) = effects s @ [RunCommand delete_command]"
        by (cases r') (simp_all add: lambda_handler_def)
      then show ?thesis using False Pair None by simp
    qed
  qed
qed

text \<open>The amended C1 at \<open>rollback_delete\<close>, whose id is a fallback id, and at
  \<open>delete_of_pod\<close>, whose id is a self link; the preparation of both succeeds.\<close>

theorem delete_decided_by_pattern_witness:
  "RequestType rollback_delete = ''Delete''
   \<and> PhysicalResourceId rollback_delete = Some fallback_id
   \<and> fallback_search fallback_id
   \<and> fst (prepare calm_world rollback_delete initial_vars) = None
   \<and> fst (lambda_handler calm_world rollback_delete some_context)
       = effects (snd (prepare calm_world rollback_delete initial_vars))
   \<and> respStatus (snd (lambda_handler calm_world rollback_delete some_context)) = SUCCESS
   \<and> respData (snd (lambda_handler calm_world rollback_delete some_context)) = None
   \<and> RequestType delete_of_pod = ''Delete''
   \<and> PhysicalResourceId delete_of_pod = Some ''/api/v1/namespaces/default/pods/x''
   \<and> \<not> fallback_search ''/api/v1/namespaces/default/pods/x''
   \<and> fst (prepare calm_world delete_of_pod initial_vars) = None
   \<and> fst (lambda_handler calm_world delete_of_pod some_context)
       = effects (snd (prepare calm_world delete_of_pod initial_vars))
         @ [RunCommand delete_command]"
proof -
  have a: "RequestType rollback_delete = ''Delete''" by code_simp
  have b: "PhysicalResourceId rollback_delete = Some fallback_id" by code_simp
  have c: "fallback_search fallback_id" by code_simp
  have d: "fst (prepare calm_world rollback_delete initial_vars) = None" by code_simp
  then have e: "prepare calm_world rollback_delete initial_vars
      = (None, snd (prepare calm_world rollback_delete initial_vars))"
    by (metis prod.collapse)
  from delete_decided_by_pattern [OF a b, of calm_world some_context] c e
  have found: "fst (lambda_handler calm_world rollback_delete some_context)
       = effects (snd (prepare calm_world rollback_delete initial_vars))
   \<and> respStatus (snd (lambda_handler calm_world rollback_delete some_context)) = SUCCESS
   \<and> respData (snd (lambda_handler calm_world rollback_delete some_context)) = None"
    by blast
  have a': "RequestType delete_of_pod = ''Delete''" by code_simp
  have b': "PhysicalResourceId delete_of_pod = Some ''/api/v1/namespaces/default/pods/x''"
    by code_simp
  have c': "\<not> fallback_search ''/api/v1/namespaces/default/pods/x''" by code_simp
  have d': "fst (prepare calm_world delete_of_pod initial_vars) = None" by code_simp
  then have e': "prepare calm_world delete_of_pod initial_vars
      = (None, snd (prepare calm_world delete_of_pod initial_vars))"
    by (metis prod.collapse)
  from delete_decided_by_pattern [OF a' b', of calm_world some_context] c' e'
  have missed: "fst (lambda_handler calm_world delete_of_pod some_context)
       = effects (snd (prepare calm_world delete_of_pod initial_vars))
         @ [RunCommand delete_command]"
    by blast
  from a b c d found a' b' c' d' missed show ?thesis by blast
qed

subsection \<open>C2: the empty address\<close>

text \<open>
  C2 says that \<^verbatim>\<open>traverse_modify(v, "", a)\<close> is \<^verbatim>\<open>a(v)\<close> for a scalar \<open>v\<close>. The empty
  string parses to the one-element path that holds the empty key, not to the empty path
  of the root, so the action is not applied: on the integer 1 the action \<open>to_null\<close> leaves 1.
\<close>

theorem empty_address_misses_root:
  "to_path (PathStr []) = [Key []]
   \<and> traverse_modify (JInt 1) (PathStr []) to_null = Inr (JInt 1)
   \<and> to_null (JInt 1) = Inr JNull
   \<and> traverse_modify (JInt 1) (PathStr []) to_null \<noteq> to_null (JInt 1)"
  by code_simp

text \<open>
  C2, as amended. For every scalar \<open>v\<close> and every action, \<^verbatim>\<open>traverse_modify\<close> with the empty
  address string returns \<open>v\<close> as it is; with the empty list as target, which is the address
  of the root, it returns the action applied to \<open>v\<close>.
\<close>

theorem modify_at_empty_address:
  assumes "is_scalar v"
  shows "traverse_modify v (PathStr []) action = Inr v
         \<and> traverse_modify v (PathList []) action = action v"
  using assms
  by (simp add: traverse_modify_def to_path_def traverse_scalar iter_path_empty
      invoke_transformer)

theorem modify_at_empty_address_witness:
  "is_scalar (JStr ''x'')
   \<and> traverse_modify (JStr ''x'') (PathStr []) to_null = Inr (JStr ''x'')
   \<and> traverse_modify (JStr ''x'') (PathList []) to_null = Inr JNull"
proof -
  have a: "is_scalar (JStr ''x'')" by simp
  from modify_at_empty_address [OF a, of to_null] a show ?thesis
    by (simp add: to_null_def)
qed

subsection \<open>C3: the length of a parsed address\<close>

text \<open>
  C3 says that an address that does not end in an index, interior indices allowed, parses
  to as many segments as it has dot-delimited non-empty components. An interior index is
  a segment of its own: \<^verbatim>\<open>a[0].b\<close> has the two components \<^verbatim>\<open>a[0]\<close> and \<^verbatim>\<open>b\<close> and
  parses to three segments.
\<close>

theorem indexed_address_length:
  "to_path (PathStr ''a[0].b'') = [Key ''a'', Ix [0], Key ''b'']
   \<and> dot_components ''a[0].b'' = [''a[0]'', ''b'']
   \<and> length (to_path (PathStr ''a[0].b'')) \<noteq> length (dot_components ''a[0].b'')"
  by code_simp

text \<open>An address without any index, made of non-empty key segments separated by single
  dots, parses to its components.\<close>

lemma plain_address_length:
  "plain_address s \<Longrightarrow> length (to_path (PathStr s)) = length (dot_components s)"
  by (simp add: to_path_plain plain_address_shape(3))

text \<open>
  C3, as amended. For every valid address string that does not end in a bracketed index
  and in which a key segment is followed by one bracketed index at most, \<^verbatim>\<open>to_path\<close>
  yields a segment list whose length is the number of dot-delimited non-empty components
  of the string plus the number of its bracketed indices, as \<^verbatim>\<open>re.findall\<close> finds them; for an
  address without indices that is the number of its components. (\<open>to_path_render\<close> is the
  path itself, for every valid address.)
\<close>

theorem address_length:
  assumes "sgs \<noteq> []" and "list_all valid_segment sgs" and "list_all single_index sgs"
    and "snd (last sgs) = []"
  shows "length (to_path (PathStr (render sgs)))
    = length (dot_components (render sgs)) + length (re_findall (render sgs))"
  using assms
  by (simp add: to_path_render dot_components_render address_path_def
      length_concat_segment_paths re_findall_render)

text \<open>The amended C3 at \<^verbatim>\<open>spec.containers[0].ports\<close>.\<close>

theorem address_length_witness:
  "render [(''spec'', []), (''containers'', [''0'']), (''ports'', [])] = ''spec.containers[0].ports''
   \<and> to_path (PathStr ''spec.containers[0].ports'')
       = [Key ''spec'', Key ''containers'', Ix [0], Key ''ports'']
   \<and> dot_components ''spec.containers[0].ports'' = [''spec'', ''containers[0]'', ''ports'']
   \<and> length (to_path (PathStr ''spec.containers[0].ports''))
       = length (dot_components ''spec.containers[0].ports'') + 1"
proof -
  have a: "[(''spec'', []), (''containers'', [''0'']), (''ports'', [])] \<noteq> ([] :: segment list)"
    by simp
  have b: "list_all valid_segment [(''spec'', []), (''containers'', [''0'']), (''ports'', [])]"
    by code_simp
  have c: "list_all single_index [(''spec'', []), (''containers'', [''0'']), (''ports'', [])]"
    by code_simp
  have d: "snd (last [(''spec'', []), (''containers'', [''0'']), (''ports'', [])]) = ([] :: string list)"
    by simp
  have r: "render [(''spec'', []), (''containers'', [''0'']), (''ports'', [])]
      = ''spec.containers[0].ports''"
    by code_simp
  have p: "to_path (PathStr ''spec.containers[0].ports'')
       = [Key ''spec'', Key ''containers'', Ix [0], Key ''ports'']"
    by code_simp
  have q: "dot_components ''spec.containers[0].ports'' = [''spec'', ''containers[0]'', ''ports'']"
    by code_simp
  have f: "length (re_findall ''spec.containers[0].ports'') = 1"
    by code_simp
  from address_length [OF a b c d]
  have "length (to_path (PathStr ''spec.containers[0].ports''))
       = length (dot_components ''spec.containers[0].ports'') + 1"
    unfolding r f by simp
  with r p q show ?thesis by blast
qed

subsection \<open>C4: what the coercion does to a string\<close>

text \<open>
  C4 says that a string other than a boolean word and a run of decimal digits passes
  through \<^verbatim>\<open>fix_types\<close> unchanged. \<^verbatim>\<open>set_type\<close> tests \<^verbatim>\<open>isdigit\<close>, which also holds of the
  superscript digits, and then calls \<^verbatim>\<open>int\<close>, which does not read them: a manifest with
  the string of the superscript two is not returned at all, the coercion raises
  \<^verbatim>\<open>ValueError\<close>. (\<open>set_type_examples\<close>, \<open>set_type_decimal\<close>, \<open>set_type_other_string\<close> and
  \<open>set_type_not_string\<close> are the cases of C4 that hold, \<open>set_type_superscript\<close> the one that
  does not.)
\<close>

theorem superscript_digit_raises:
  "isdigit [CHR 0xB2]
   \<and> lower [CHR 0xB2] \<noteq> ''true'' \<and> lower [CHR 0xB2] \<noteq> ''false''
   \<and> set_type (JStr [CHR 0xB2]) = Inl ValueError
   \<and> fix_types superscript_manifest = Inl ValueError"
  by code_simp

subsection \<open>C5: the coercion is idempotent\<close>

text \<open>
  C5: \<^verbatim>\<open>fix_types(fix_types(v)) == fix_types(v)\<close> for every value \<open>v\<close>. Both sides raise
  when the first coercion raises; otherwise its result is coerced to itself.
\<close>

theorem fix_types_idempotent: "and_then (fix_types v) fix_types = fix_types v"
proof (cases "fix_types v")
  case (Inl err)
  then show ?thesis by (simp add: and_then_def)
next
  case (Inr w)
  then have "fix_types w = Inr w"
    using coerce_again [of v] by (simp add: fix_types_def traverse_modify_all_def)
  with Inr show ?thesis by (simp add: and_then_def)
qed

text \<open>C5 at a manifest whose scalars are strings.\<close>

theorem fix_types_idempotent_witness:
  "fix_types stringly_manifest
     = Inr (JDict [(''spec'', JDict [(''replicas'', JInt 3), (''paused'', JBool False),
          (''ports'', JList [JInt 80, JStr ''8.5'', JInt 9])])])
   \<and> and_then (fix_types stringly_manifest) fix_types
     = Inr (JDict [(''spec'', JDict [(''replicas'', JInt 3), (''paused'', JBool False),
          (''ports'', JList [JInt 80, JStr ''8.5'', JInt 9])])])"
proof -
  have a: "fix_types stringly_manifest
     = Inr (JDict [(''spec'', JDict [(''replicas'', JInt 3), (''paused'', JBool False),
          (''ports'', JList [JInt 80, JStr ''8.5'', JInt 9])])])"
    by code_simp
  with fix_types_idempotent [of stringly_manifest] show ?thesis by simp
qed

subsection \<open>C6: the name of the manifest\<close>

text \<open>
  C6: for an event whose stack id has a second segment and whose manifest is a dict,
  \<^verbatim>\<open>generate_name\<close> returns the manifest unchanged when it has no \<^verbatim>\<open>metadata\<close> entry or
  when the metadata dict has \<^verbatim>\<open>name\<close> or \<^verbatim>\<open>generateName\<close>; otherwise, with a physical id
  (a string that is not empty) it sets \<^verbatim>\<open>metadata.name\<close> to the last segment of the id,
  and without one it sets \<^verbatim>\<open>metadata.generateName\<close> to \<^verbatim>\<open>cfn-\<close>, the lower-cased second
  segment of the stack id and \<^verbatim>\<open>-\<close>.
\<close>

theorem generate_name_cases:
  assumes "2 \<le> length (split_on CHR ''/'' (StackId ev))"
    and "Manifest ev = JDict d"
  shows "(map_of d ''metadata'' = None \<longrightarrow> generate_name ev pid = Inr (Manifest ev)) \<and>
    (\<forall>md. map_of d ''metadata'' = Some (JDict md) \<longrightarrow>
       (map_of md ''name'' \<noteq> None \<or> map_of md ''generateName'' \<noteq> None \<longrightarrow>
          generate_name ev pid = Inr (Manifest ev)) \<and>
       (map_of md ''name'' = None \<and> map_of md ''generateName'' = None \<longrightarrow>
          (\<forall>p. pid = Some p \<and> p \<noteq> [] \<longrightarrow>
             generate_name ev pid =
               Inr (set_name ''name'' (JStr (last (split_on CHR ''/'' p))) md d)) \<and>
          (pid = None \<longrightarrow>
             generate_name ev pid =
               Inr (set_name ''generateName''
                 (JStr (''cfn-'' @ lower (split_on CHR ''/'' (StackId ev) ! 1) @ ''-'')) md d))))"
  using assms by (auto simp: generate_name_def Let_def)

text \<open>C6 at the manifest \<^verbatim>\<open>{metadata: {}}\<close> of the stack \<^verbatim>\<open>MyStack\<close>, without a physical id
  and with the self link of the pod \<^verbatim>\<open>foo-123\<close>.\<close>

theorem generate_name_cases_witness:
  "2 \<le> length (split_on CHR ''/'' (StackId unnamed_create))
   \<and> Manifest unnamed_create = JDict [(''metadata'', JDict [])]
   \<and> generate_name unnamed_create None
       = Inr (JDict [(''metadata'', JDict [(''generateName'', JStr ''cfn-mystack-'')])])
   \<and> generate_name unnamed_create (Some ''/api/v1/namespaces/ns/pods/foo-123'')
       = Inr (JDict [(''metadata'', JDict [(''name'', JStr ''foo-123'')])])"
proof -
  have a: "2 \<le> length (split_on CHR ''/'' (StackId unnamed_create))" by code_simp
  have b: "Manifest unnamed_create = JDict [(''metadata'', JDict [])]" by code_simp
  have g: "set_name ''generateName''
      (JStr (''cfn-'' @ lower (split_on CHR ''/'' (StackId unnamed_create) ! 1) @ ''-''))
      [] [(''metadata'', JDict [])]
    = JDict [(''metadata'', JDict [(''generateName'', JStr ''cfn-mystack-'')])]"
    by code_simp
  have n: "set_name ''name''
      (JStr (last (split_on CHR ''/'' ''/api/v1/namespaces/ns/pods/foo-123'')))
      [] [(''metadata'', JDict [])]
    = JDict [(''metadata'', JDict [(''name'', JStr ''foo-123'')])]"
    by code_simp
  have "generate_name unnamed_create None
       = Inr (JDict [(''metadata'', JDict [(''generateName'', JStr ''cfn-mystack-'')])])"
    using generate_name_cases [OF a b, of None] g by simp
  moreover have "generate_name unnamed_create (Some ''/api/v1/namespaces/ns/pods/foo-123'')
       = Inr (JDict [(''metadata'', JDict [(''name'', JStr ''foo-123'')])])"
    using generate_name_cases [OF a b, of "Some ''/api/v1/namespaces/ns/pods/foo-123''"] n
    by simp
  ultimately show ?thesis using a b by blast
qed

subsection \<open>C7: the number of reports\<close>

text \<open>
  C7 says that exactly one report is sent in every execution, also when the watchdog
  fires before the main path completes. Nothing stops the main path when the watchdog
  has fired, and \<^verbatim>\<open>timer.cancel()\<close> comes too late for a timer that has run its function:
  when the main path then completes, its \<^verbatim>\<open>finally\<close> clause sends a second report.
  (\<open>main_first_one_report\<close> and \<open>reports_bounds\<close> are what holds: one report when the main
  path completes first, and never more than two.)
\<close>

theorem watchdog_then_main_reports_twice:
  "sent (invocation w ev ctx [WatchdogFires, MainPathCompletes])
     = [timeout ev ctx, snd (lambda_handler w ev ctx)]
   \<and> length (sent (invocation w ev ctx [WatchdogFires, MainPathCompletes])) = 2"
  by (simp add: invocation_def occur_def started_def)

subsection \<open>C8: the physical id across requests\<close>

text \<open>
  C8: an Update never changes the physical id, and only the Create branch assigns a new
  one, the \<^verbatim>\<open>selfLink\<close> of the created object. In five parts:
  the report of an Update that supplies the id \<open>p\<close> carries \<open>p\<close>, successful or not;
  a report that carries another id than the supplied \<open>p\<close> is the report of a Create, and
  that id is the \<^verbatim>\<open>selfLink\<close> of the data it reports;
  a request that is not a Create ends with no physical id of its own or with the id of
  the event, and reports the id of the event (the log stream name when the event has
  none);
  a Create that reports SUCCESS ran the create command, the tool returned an object whose
  metadata has a \<^verbatim>\<open>selfLink\<close>, the handler holds that link as the physical id, and the
  report carries it (\<^verbatim>\<open>send\<close> passes over a link that is not truthy);
  and a Create whose preparation succeeds and whose tool returns an object with a
  \<^verbatim>\<open>selfLink\<close> does report SUCCESS with that link as the physical id.
\<close>

theorem update_keeps_physical_id:
  "(PhysicalResourceId ev = Some p \<longrightarrow> RequestType ev = ''Update'' \<longrightarrow>
      respPhysicalResourceId (snd (lambda_handler w ev ctx)) = JStr p) \<and>
   (PhysicalResourceId ev = Some p \<longrightarrow>
      respPhysicalResourceId (snd (lambda_handler w ev ctx)) \<noteq> JStr p \<longrightarrow>
        RequestType ev = ''Create'' \<and>
        (\<exists>outp. respData (snd (lambda_handler w ev ctx)) = Some outp \<and>
           map_of outp ''selfLink''
             = Some (respPhysicalResourceId (snd (lambda_handler w ev ctx))))) \<and>
   (RequestType ev \<noteq> ''Create'' \<longrightarrow>
      (physical_resource_id (snd (try_block w ev initial_vars)) = None
       \<or> physical_resource_id (snd (try_block w ev initial_vars))
           = map_option JStr (PhysicalResourceId ev)) \<and>
      respPhysicalResourceId (snd (lambda_handler w ev ctx))
        = (case PhysicalResourceId ev of Some q \<Rightarrow> JStr q
           | None \<Rightarrow> JStr (log_stream_name ctx))) \<and>
   (RequestType ev = ''Create'' \<longrightarrow> respStatus (snd (lambda_handler w ev ctx)) = SUCCESS \<longrightarrow>
      (\<exists>out d md link. run_command w create_command = Inr out
         \<and> json_loads w out = Inr (JDict d)
         \<and> map_of d ''metadata'' = Some (JDict md)
         \<and> map_of md ''selfLink'' = Some link
         \<and> physical_resource_id (snd (try_block w ev initial_vars)) = Some link
         \<and> (truthy link \<longrightarrow> respPhysicalResourceId (snd (lambda_handler w ev ctx)) = link))) \<and>
   (RequestType ev = ''Create'' \<longrightarrow> fst (prepare w ev initial_vars) = None \<longrightarrow>
      run_command w create_command = Inr out' \<longrightarrow> json_loads w out' = Inr (JDict d') \<longrightarrow>
      map_of d' ''metadata'' = Some (JDict md') \<longrightarrow> map_of md' ''selfLink'' = Some link' \<longrightarrow>
        respStatus (snd (lambda_handler w ev ctx)) = SUCCESS
        \<and> physical_resource_id (snd (try_block w ev initial_vars)) = Some link'
        \<and> (truthy link' \<longrightarrow> respPhysicalResourceId (snd (lambda_handler w ev ctx)) = link'))"
proof (intro conjI impI)
  assume "PhysicalResourceId ev = Some p" and "RequestType ev = ''Update''"
  then show "respPhysicalResourceId (snd (lambda_handler w ev ctx)) = JStr p"
  proof (cases rule: handler_cases [of w ev ctx])
    case (ok s)
    then show ?thesis 
      using try_block_pid [OF ok(1)] \<open>PhysicalResourceId ev = Some p\<close> \<open>RequestType ev = ''Update''\<close>
      by (auto simp: ok(2) send_def split: if_splits)
  next
    case (failed err s)
    then show ?thesis
      using try_block_pid [OF failed(1)] \<open>PhysicalResourceId ev = Some p\<close> \<open>RequestType ev = ''Update''\<close>
      by (auto simp: failed(2) send_def split: if_splits)
  qed
next
  assume p: "PhysicalResourceId ev = Some p"
    and n: "respPhysicalResourceId (snd (lambda_handler w ev ctx)) \<noteq> JStr p"
  have "RequestType ev = ''Create'' \<and>
        (\<exists>outp. respData (snd (lambda_handler w ev ctx)) = Some outp \<and>
           map_of outp ''selfLink''
             = Some (respPhysicalResourceId (snd (lambda_handler w ev ctx))))"
  proof (cases rule: handler_cases [of w ev ctx])
    case (ok s)
    show ?thesis
      using try_block_pid [OF ok(1)] p n
      by (auto simp: ok(2) send_def split: if_splits)
  next
    case (failed err s)
    show ?thesis
      using try_block_pid [OF failed(1)] p n
      by (auto simp: failed(2) send_def split: if_splits)
  qed
  then show "RequestType ev = ''Create''"
    and "\<exists>outp. respData (snd (lambda_handler w ev ctx)) = Some outp \<and>
           map_of outp ''selfLink''
             = Some (respPhysicalResourceId (snd (lambda_handler w ev ctx)))"
    by blast+
next
  assume nc: "RequestType ev \<noteq> ''Create''"
  obtain r s where t: "try_block w ev initial_vars = (r, s)"
    by (cases "try_block w ev initial_vars")
  have pid: "physical_resource_id s = None
         \<or> (\<exists>q. PhysicalResourceId ev = Some q \<and> physical_resource_id s = Some (JStr q))"
    using try_block_not_create [OF nc t] .
  then show "physical_resource_id (snd (try_block w ev initial_vars)) = None
       \<or> physical_resource_id (snd (try_block w ev initial_vars))
           = map_option JStr (PhysicalResourceId ev)"
    by (auto simp: t)
  show "respPhysicalResourceId (snd (lambda_handler w ev ctx))
        = (case PhysicalResourceId ev of Some q \<Rightarrow> JStr q
           | None \<Rightarrow> JStr (log_stream_name ctx))"
    using pid t
    by (cases r) (auto simp: lambda_handler_def send_def split: option.splits)
next
  assume c: "RequestType ev = ''Create''"
    and ok: "respStatus (snd (lambda_handler w ev ctx)) = SUCCESS"
  obtain r s where t: "try_block w ev initial_vars = (r, s)"
    by (cases "try_block w ev initial_vars")
  have r: "r = None"
    using ok t failed_not_success
    by (cases r) (auto simp: lambda_handler_def send_def)
  from t r have "seq (prepare w ev) (create_branch w ev) initial_vars = (None, s)"
    by (simp add: try_block_create [OF c])
  then obtain s1 where "create_branch w ev s1 = (None, s)"
    by (cases rule: seq_cases) auto
  from create_branch_success [OF c this] obtain out d md link where
    f: "run_command w create_command = Inr out" "json_loads w out = Inr (JDict d)"
      "map_of d ''metadata'' = Some (JDict md)" "map_of md ''selfLink'' = Some link"
      "physical_resource_id s = Some link"
    by blast
  have "truthy link \<longrightarrow> respPhysicalResourceId (snd (lambda_handler w ev ctx)) = link"
    using t r f(5) by (simp add: lambda_handler_def send_truthy)
  with f t show "\<exists>out d md link. run_command w create_command = Inr out
         \<and> json_loads w out = Inr (JDict d)
         \<and> map_of d ''metadata'' = Some (JDict md)
         \<and> map_of md ''selfLink'' = Some link
         \<and> physical_resource_id (snd (try_block w ev initial_vars)) = Some link
         \<and> (truthy link \<longrightarrow> respPhysicalResourceId (snd (lambda_handler w ev ctx)) = link)"
    by auto
next
  assume c: "RequestType ev = ''Create''"
    and pr: "fst (prepare w ev initial_vars) = None"
    and f: "run_command w create_command = Inr out'" "json_loads w out' = Inr (JDict d')"
      "map_of d' ''metadata'' = Some (JDict md')" "map_of md' ''selfLink'' = Some link'"
  obtain s1 where p1: "prepare w ev initial_vars = (None, s1)"
    using pr by (cases "prepare w ev initial_vars") auto
  obtain s where cb: "create_branch w ev s1 = (None, s)" and pid: "physical_resource_id s = Some link'"
    using create_branch_runs [OF c f, of s1] by blast
  have t: "try_block w ev initial_vars = (None, s)"
    using p1 cb by (simp add: try_block_create [OF c] seq_def)
  show "respStatus (snd (lambda_handler w ev ctx)) = SUCCESS"
    using t by (simp add: lambda_handler_def send_def)
  show "physical_resource_id (snd (try_block w ev initial_vars)) = Some link'"
    using t pid by simp
  show "truthy link' \<Longrightarrow> respPhysicalResourceId (snd (lambda_handler w ev ctx)) = link'"
    using t pid by (simp add: lambda_handler_def send_truthy)
qed

text \<open>C8 at a successful Update of the pod, at a first Create, which has no physical id,
  and at a Create that carries the fallback id of an earlier attempt: the Update reports
  the id it was given, both Creates report the \<^verbatim>\<open>selfLink\<close> of the pod.\<close>

theorem update_keeps_physical_id_witness:
  "RequestType update_of_pod = ''Update''
   \<and> PhysicalResourceId update_of_pod = Some ''/api/v1/namespaces/default/pods/x''
   \<and> respStatus (snd (lambda_handler calm_world update_of_pod some_context)) = SUCCESS
   \<and> RunCommand apply_command \<in> set (fst (lambda_handler calm_world update_of_pod some_context))
   \<and> respPhysicalResourceId (snd (lambda_handler calm_world update_of_pod some_context))
       = JStr ''/api/v1/namespaces/default/pods/x''
   \<and> RequestType unnamed_create = ''Create''
   \<and> PhysicalResourceId unnamed_create = None
   \<and> fst (prepare calm_world unnamed_create initial_vars) = None
   \<and> respStatus (snd (lambda_handler calm_world unnamed_create some_context)) = SUCCESS
   \<and> respPhysicalResourceId (snd (lambda_handler calm_world unnamed_create some_context))
       = JStr ''/api/v1/namespaces/default/pods/x''
   \<and> RequestType retried_create = ''Create''
   \<and> PhysicalResourceId retried_create = Some fallback_id
   \<and> JStr fallback_id \<noteq> JStr ''/api/v1/namespaces/default/pods/x''
   \<and> respPhysicalResourceId (snd (lambda_handler calm_world retried_create some_context))
       = JStr ''/api/v1/namespaces/default/pods/x''"
proof -
  have a: "PhysicalResourceId update_of_pod = Some ''/api/v1/namespaces/default/pods/x''"
    by code_simp
  have b: "RequestType update_of_pod = ''Update''" by code_simp
  have c: "respStatus (snd (lambda_handler calm_world update_of_pod some_context)) = SUCCESS"
    by code_simp
  have d: "RunCommand apply_command
      \<in> set (fst (lambda_handler calm_world update_of_pod some_context))"
    by code_simp
  from update_keeps_physical_id [of update_of_pod "''/api/v1/namespaces/default/pods/x''" calm_world some_context] a b
  have upd: "respPhysicalResourceId (snd (lambda_handler calm_world update_of_pod some_context))
       = JStr ''/api/v1/namespaces/default/pods/x''"
    by blast
  have out: "run_command calm_world create_command = Inr ''pod''" by code_simp
  have kube: "json_loads calm_world ''pod''
      = Inr (JDict [(''kind'', JStr ''Pod''),
                (''metadata'', JDict [(''name'', JStr ''x''),
                   (''selfLink'', JStr ''/api/v1/namespaces/default/pods/x''),
                   (''uid'', JStr ''u1''),
                   (''labels'', JDict [])])])"
    by code_simp
  have md: "map_of [(''kind'', JStr ''Pod''),
                (''metadata'', JDict [(''name'', JStr ''x''),
                   (''selfLink'', JStr ''/api/v1/namespaces/default/pods/x''),
                   (''uid'', JStr ''u1''),
                   (''labels'', JDict [])])] ''metadata''
      = Some (JDict [(''name'', JStr ''x''),
                   (''selfLink'', JStr ''/api/v1/namespaces/default/pods/x''),
                   (''uid'', JStr ''u1''),
                   (''labels'', JDict [])])"
    by simp
  have link: "map_of [(''name'', JStr ''x''),
                   (''selfLink'', JStr ''/api/v1/namespaces/default/pods/x''),
                   (''uid'', JStr ''u1''),
                   (''labels'', JDict [])] ''selfLink''
      = Some (JStr ''/api/v1/namespaces/default/pods/x'')"
    by simp
  have tr: "truthy (JStr ''/api/v1/namespaces/default/pods/x'')" by simp
  have e: "RequestType unnamed_create = ''Create''" by code_simp
  have f: "PhysicalResourceId unnamed_create = None" by code_simp
  have g: "fst (prepare calm_world unnamed_create initial_vars) = None" by code_simp
  from update_keeps_physical_id [of unnamed_create _ calm_world some_context "''pod''"] e g out kube md link tr
  have cre: "respStatus (snd (lambda_handler calm_world unnamed_create some_context)) = SUCCESS
    \<and> respPhysicalResourceId (snd (lambda_handler calm_world unnamed_create some_context))
       = JStr ''/api/v1/namespaces/default/pods/x''"
    by blast
  have h: "RequestType retried_create = ''Create''" by code_simp
  have i: "PhysicalResourceId retried_create = Some fallback_id" by code_simp
  have j: "fst (prepare calm_world retried_create initial_vars) = None" by code_simp
  have k: "JStr fallback_id \<noteq> JStr ''/api/v1/namespaces/default/pods/x''" by code_simp
  from update_keeps_physical_id [of retried_create _ calm_world some_context "''pod''"] h j out kube md link tr
  have ret: "respPhysicalResourceId (snd (lambda_handler calm_world retried_create some_context))
       = JStr ''/api/v1/namespaces/default/pods/x''"
    by blast
  from a b c d upd e f g cre h i k ret show ?thesis by blast
qed

subsection \<open>C9: the fields of the output\<close>

text \<open>
  C9: for a tool output that is a dict with a metadata dict, \<^verbatim>\<open>build_output\<close> returns a
  dict in which each of \<^verbatim>\<open>uid\<close>, \<^verbatim>\<open>selfLink\<close>, \<^verbatim>\<open>resourceVersion\<close>, \<^verbatim>\<open>namespace\<close> and
  \<^verbatim>\<open>name\<close> is present exactly when the metadata has it, with the value it has there, and
  no other key is present.
\<close>

theorem build_output_fields:
  assumes "map_of d ''metadata'' = Some (JDict md)"
  shows "\<exists>outp. build_output (JDict d) = Inr outp \<and>
           (\<forall>k. map_of outp k = (if k \<in> set output_keys then map_of md k else None))"
proof -
  have "build_output (JDict d) = Inr (foldl (copy_key md) [] output_keys)"
    using assms by (simp add: build_output_def)
  moreover have "map_of (foldl (copy_key md) [] output_keys) k
      = (if k \<in> set output_keys then map_of md k else None)" for k
    by (simp add: map_of_copy_keys)
  ultimately show ?thesis by blast
qed

text \<open>C9 at the pod, whose metadata has a name, a self link, a uid and labels.\<close>

theorem build_output_fields_witness:
  "build_output pod
     = Inr [(''uid'', JStr ''u1''),
            (''selfLink'', JStr ''/api/v1/namespaces/default/pods/x''),
            (''name'', JStr ''x'')]
   \<and> (\<exists>outp. build_output pod = Inr outp
        \<and> map_of outp ''uid'' = Some (JStr ''u1'')
        \<and> map_of outp ''namespace'' = None
        \<and> map_of outp ''labels'' = None)"
proof -
  have m: "map_of [(''kind'', JStr ''Pod''),
                (''metadata'', JDict [(''name'', JStr ''x''),
                   (''selfLink'', JStr ''/api/v1/namespaces/default/pods/x''),
                   (''uid'', JStr ''u1''),
                   (''labels'', JDict [])])] ''metadata''
     = Some (JDict [(''name'', JStr ''x''),
                   (''selfLink'', JStr ''/api/v1/namespaces/default/pods/x''),
                   (''uid'', JStr ''u1''),
                   (''labels'', JDict [])])"
    by simp
  from build_output_fields [OF m] obtain outp where
    o: "build_output pod = Inr outp" and
    f: "\<And>k. map_of outp k = (if k \<in> set output_keys
          then map_of [(''name'', JStr ''x''),
                   (''selfLink'', JStr ''/api/v1/namespaces/default/pods/x''),
                   (''uid'', JStr ''u1''),
                   (''labels'', JDict [])] k else None)"
    unfolding pod_def by blast
  have "map_of outp ''uid'' = Some (JStr ''u1'')" and "map_of outp ''namespace'' = None"
    and "map_of outp ''labels'' = None"
    by (simp_all add: f output_keys_def)
  moreover have "build_output pod
     = Inr [(''uid'', JStr ''u1''),
            (''selfLink'', JStr ''/api/v1/namespaces/default/pods/x''),
            (''name'', JStr ''x'')]"
    by code_simp
  ultimately show ?thesis using o by blast
qed

subsection \<open>C10: an address that ends in an index\<close>

text \<open>
  C10 says that an address ending in a bracketed index parses to a path whose last
  segment is the empty key, and that, no traversal address ending in the empty key,
  \<^verbatim>\<open>traverse_modify\<close> with such a target returns the tree unchanged. JSON allows the
  empty string as a key, and the path of a value under such a key ends in the empty key:
  in \<open>empty_key_tree\<close> the target \<^verbatim>\<open>a[0]\<close> meets the value under the empty key, and the
  action is applied to it.
\<close>

theorem trailing_index_meets_empty_key:
  "to_path (PathStr ''a[0]'') = [Key ''a'', Ix [0], Key []]
   \<and> traverse_modify empty_key_tree (PathStr ''a[0]'') to_null
       = Inr (JDict [(''a'', JList [JDict [([], JNull)]])])
   \<and> traverse_modify empty_key_tree (PathStr ''a[0]'') to_null \<noteq> Inr empty_key_tree"
  by code_simp

text \<open>
  C10, as amended. An address that ends in a bracketed index parses to a path whose last
  segment is the empty key; and on a tree none of whose dicts has the empty string as a
  key, \<^verbatim>\<open>traverse_modify\<close> with such a target returns the tree unchanged, whatever the
  action.
\<close>

theorem trailing_index_never_matches:
  assumes "ds \<noteq> []" and "list_all is_ascii_digit ds"
  shows "last (to_path (PathStr (t @ index_token ds))) = Key []
    \<and> ([] \<notin> set (dict_keys obj) \<longrightarrow>
         traverse_modify obj (PathStr (t @ index_token ds)) action = Inr obj)"
proof -
  have "traverse_modify obj (PathStr (t @ index_token ds)) action = Inr obj"
    if "[] \<notin> set (dict_keys obj)"
    unfolding traverse_modify_def using that
    by (intro traverse_untouched to_path_trailing_index [OF assms])
      (simp_all add: off_target_def)
  then show ?thesis
    using to_path_trailing_index(2) [OF assms] by blast
qed

theorem trailing_index_never_matches_witness:
  "''0'' \<noteq> [] \<and> list_all is_ascii_digit ''0''
   \<and> [] \<notin> set (dict_keys nested_tree)
   \<and> last (to_path (PathStr ''a.b[0]'')) = Key []
   \<and> traverse_modify nested_tree (PathStr ''a.b[0]'') to_null = Inr nested_tree"
proof -
  have a: "''0'' \<noteq> []" by simp
  have b: "list_all is_ascii_digit ''0''" by code_simp
  have c: "[] \<notin> set (dict_keys nested_tree)" by code_simp
  have e: "''a.b'' @ index_token ''0'' = ''a.b[0]''" by (simp add: index_token_def)
  from trailing_index_never_matches [OF a b, of "''a.b''" nested_tree to_null] c
  show ?thesis using a b unfolding e by blast
qed

end
